theory Spec2Isabelle
  imports Main
begin

section \<open>JavaScript values and the data of the library\<close>

text \<open>
  Items, errors and promise values are JavaScript values. \<open>Prim\<close> carries a primitive
  or an object reference, on which \<open>===\<close> is equality; \<open>Undefined\<close> is what a function
  without \<open>return\<close> yields and what \<open>resolve()\<close> passes; \<open>Arr\<close> is an array value
  (the result of \<open>Promise.all\<close>).
\<close>

datatype 'a val = Undefined | Prim 'a | Arr "'a val list"

text \<open>The outcome of calling a user function: it returns a value or throws one.\<close>

datatype 'a result = Return "'a val" | Throw "'a val"

text \<open>
  The second argument an item listener receives. \<open>SetFlag c\<close> is
  \<open>function() { cancelled = true; }\<close> over the \<open>cancelled\<close> variable stored at \<open>c\<close>;
  \<open>Noop\<close> is \<open>function() { }\<close>; \<open>NoHook\<close> is \<open>undefined\<close> (\<open>emit(item)\<close> called with
  one argument).
\<close>

datatype hook = NoHook | SetFlag nat | Noop

text \<open>
  A callback-style producer \<open>function(done, reject, emit) {...}\<close> that works synchronously
  is the sequence of calls it makes on its three handles, possibly ended by a \<open>throw\<close>.
\<close>

datatype 'a call = CallEmit "'a val" | CallDone | CallReject "'a val" | ThrowExn "'a val"

text \<open>
  The four shapes the constructor tells apart by \<open>cb.constructor.name\<close>. A generator
  function is started by the constructor (\<open>cb = cb()\<close>) and then treated as the iterator it
  returns; the iterator is the finite list of the values its \<open>next()\<close> yields. The promise
  is a reference into the promise store.
\<close>

datatype 'a producer =
    Array "'a val list"
  | Iterator "'a val list"
  | PromiseSrc nat
  | Callback "'a call list"

text \<open>The function handed to \<open>then\<close>: the two closures of \<open>exclude\<close>
  (\<open>function(items) { itemsA = items; }\<close>), the closure of \<open>intersectByComparison\<close>
  (\<open>function() { resolve(); }\<close> over a promise) and a function of the user.\<close>

datatype 'a thencb =
    SetVar nat
  | ResolveOuter nat
  | UserFn "'a val list \<Rightarrow> 'a result"

text \<open>Item listeners: every function expression of the source that is passed to
  \<open>emit(cb)\<close>, and two listeners of a user that record what they receive (the second one
  also invokes the cancellation hook).\<close>

datatype ('a, 'k) item_listener =
    ThenPush nat
  | HandleEmitHash nat "'a val \<Rightarrow> 'k" nat nat
  | HandleEmitCmp nat "'a val \<Rightarrow> 'a val \<Rightarrow> bool" nat nat
  | ObserveItem nat
  | ObserveItemCancel nat

datatype 'a done_listener =
    ThenDone nat "'a thencb" nat
  | ResolveUnit nat
  | ObserveDone nat

datatype catch_listener =
    RejectErr nat
  | ObserveFault nat

record ('a, 'k) generator =
  registeredEmits :: "('a, 'k) item_listener list"
  registeredCatches :: "catch_listener list"
  registeredDones :: "'a done_listener list"

text \<open>Promise reactions: the functions the source passes to \<open>Promise.prototype.then\<close>,
  and the element function \<open>Promise.all\<close> installs on each of its inputs.\<close>

datatype 'a reaction =
    AllElement nat nat
  | ExcludeJoin nat nat "'a val \<Rightarrow> 'a val \<Rightarrow> bool" nat
  | CallDoneOf nat
  | FromPromise nat

datatype 'a job = Fulfil "'a reaction" nat "'a val" | Reject "'a reaction" nat "'a val"

datatype 'a pstate = Pending | Fulfilled "'a val" | Rejected "'a val"

record 'a promise =
  pstate :: "'a pstate"
  reactions :: "('a reaction \<times> nat) list"

text \<open>A timer task is one of the functions the source passes to \<open>setTimeout(..., 1)\<close>.\<close>

datatype 'a task =
    DispatchEmit nat "'a val" hook
  | DispatchDone nat
  | DispatchCatch nat "'a val"
  | LegacyStart nat "'a producer"

datatype 'a obs = SawItem nat "'a val" | SawDone nat | SawFault nat "'a val"

record 'a distinct_item =
  item :: "'a val"
  count :: nat
  emitted :: bool

text \<open>
  What a property of the \<open>map\<close> object of \<open>intersectByHash\<close> can hold: a number the
  handler has stored, a member inherited from \<open>Object.prototype\<close> (a function or an object),
  or the string that \<open>count += 1\<close> makes of such a member.
\<close>

datatype slot = Count nat | Member | Text

text \<open>
  The state of the single-threaded runtime: the object store (generators, promises, the
  counters and value arrays of \<open>Promise.all\<close>, arrays, array-valued variables, the
  \<open>cancelled\<close> flags, the \<open>map\<close> objects of \<open>intersectByHash\<close>, the \<open>distinctItems\<close>
  arrays of \<open>intersectByComparison\<close>), the queue of timers (all with delay 1, so first in,
  first out), the queue of promise jobs, and the record of what the user's listeners saw.
  The host is not part of the repository, so the property names its \<open>Object.prototype\<close>
  defines (\<open>constructor\<close>, \<open>toString\<close>, \<open>valueOf\<close> and the others) are a parameter,
  \<open>proto_members\<close>: the keys that every object literal \<open>{}\<close> inherits.
\<close>

record ('a, 'k) state =
  fresh :: nat
  gens :: "nat \<Rightarrow> ('a, 'k) generator"
  proms :: "nat \<Rightarrow> 'a promise"
  remaining :: "nat \<Rightarrow> nat"
  allvalues :: "nat \<Rightarrow> 'a val list"
  arrs :: "nat \<Rightarrow> 'a val list"
  vars :: "nat \<Rightarrow> nat"
  flags :: "nat \<Rightarrow> bool"
  maps :: "nat \<Rightarrow> 'k \<Rightarrow> slot option"
  proto_members :: "'k \<Rightarrow> bool"
  dists :: "nat \<Rightarrow> 'a distinct_item list"
  timers :: "'a task list"
  jobs :: "'a job list"
  log :: "'a obs list"

text \<open>The runtime of a program that has not run yet, on a host whose \<open>Object.prototype\<close>
  defines none of the keys; \<open>init\<lparr>proto_members := P\<rparr>\<close> is the same on the host that
  defines the keys in \<open>P\<close>.\<close>

definition init :: "('a, 'k) state" where
  "init = \<lparr>fresh = 0,
     gens = (\<lambda>_. \<lparr>registeredEmits = [], registeredCatches = [], registeredDones = []\<rparr>),
     proms = (\<lambda>_. \<lparr>pstate = Pending, reactions = []\<rparr>),
     remaining = (\<lambda>_. 0), allvalues = (\<lambda>_. []), arrs = (\<lambda>_. []), vars = (\<lambda>_. 0),
     flags = (\<lambda>_. False), maps = (\<lambda>_ _. None), proto_members = (\<lambda>_. False),
     dists = (\<lambda>_. []),
     timers = [], jobs = [], log = []\<rparr>"

definition alloc :: "('a, 'k) state \<Rightarrow> nat \<times> ('a, 'k) state" where
  "alloc s = (fresh s, s\<lparr>fresh := Suc (fresh s)\<rparr>)"

section \<open>Promises of the host\<close>

definition new_promise :: "('a, 'k) state \<Rightarrow> nat \<times> ('a, 'k) state" where
  "new_promise s =
     (fresh s, s\<lparr>fresh := Suc (fresh s),
                 proms := (proms s)(fresh s := \<lparr>pstate = Pending, reactions = []\<rparr>)\<rparr>)"

definition resolve_p :: "nat \<Rightarrow> 'a val \<Rightarrow> ('a, 'k) state \<Rightarrow> ('a, 'k) state" where
  "resolve_p p v s =
     (case pstate (proms s p) of
        Pending \<Rightarrow>
          s\<lparr>proms := (proms s)(p := \<lparr>pstate = Fulfilled v, reactions = []\<rparr>),
            jobs := jobs s @ map (\<lambda>(r, q). Fulfil r q v) (reactions (proms s p))\<rparr>
      | _ \<Rightarrow> s)"

definition reject_p :: "nat \<Rightarrow> 'a val \<Rightarrow> ('a, 'k) state \<Rightarrow> ('a, 'k) state" where
  "reject_p p e s =
     (case pstate (proms s p) of
        Pending \<Rightarrow>
          s\<lparr>proms := (proms s)(p := \<lparr>pstate = Rejected e, reactions = []\<rparr>),
            jobs := jobs s @ map (\<lambda>(r, q). Reject r q e) (reactions (proms s p))\<rparr>
      | _ \<Rightarrow> s)"

text \<open>\<open>p.then(r)\<close> with one argument: a derived promise, and the reaction stored or, when
  \<open>p\<close> is settled already, queued as a job.\<close>

definition then_p :: "nat \<Rightarrow> 'a reaction \<Rightarrow> ('a, 'k) state \<Rightarrow> nat \<times> ('a, 'k) state" where
  "then_p p r s =
     (let (q, s1) = new_promise s in
      (q, case pstate (proms s1 p) of
            Pending \<Rightarrow>
              s1\<lparr>proms := (proms s1)(p := (proms s1 p)\<lparr>reactions := reactions (proms s1 p) @ [(r, q)]\<rparr>)\<rparr>
          | Fulfilled v \<Rightarrow> s1\<lparr>jobs := jobs s1 @ [Fulfil r q v]\<rparr>
          | Rejected e \<Rightarrow> s1\<lparr>jobs := jobs s1 @ [Reject r q e]\<rparr>))"

fun all_elements :: "nat \<Rightarrow> nat \<Rightarrow> nat list \<Rightarrow> ('a, 'k) state \<Rightarrow> ('a, 'k) state" where
  "all_elements pa i [] s = s"
| "all_elements pa i (p # ps) s = all_elements pa (Suc i) ps (snd (then_p p (AllElement pa i) s))"

text \<open>\<open>Promise.all(ps)\<close>: a counter of the inputs not yet fulfilled and an array of their
  values; with no input the result is fulfilled at once.\<close>

definition promise_all :: "nat list \<Rightarrow> ('a, 'k) state \<Rightarrow> nat \<times> ('a, 'k) state" where
  "promise_all ps s =
     (let (pa, s1) = new_promise s;
          s2 = s1\<lparr>remaining := (remaining s1)(pa := length ps),
                  allvalues := (allvalues s1)(pa := replicate (length ps) Undefined)\<rparr>;
          s3 = all_elements pa 0 ps s2
      in (pa, if ps = [] then resolve_p pa (Arr []) s3 else s3))"

section \<open>The Generator constructor (current variant)\<close>

text \<open>The three handles of the constructor: each call sets a timer of delay 1 whose task
  calls the listeners registered at the time the task runs.\<close>

definition done_h :: "nat \<Rightarrow> ('a, 'k) state \<Rightarrow> ('a, 'k) state" where
  "done_h g s = s\<lparr>timers := timers s @ [DispatchDone g]\<rparr>"

definition reject_h :: "nat \<Rightarrow> 'a val \<Rightarrow> ('a, 'k) state \<Rightarrow> ('a, 'k) state" where
  "reject_h g e s = s\<lparr>timers := timers s @ [DispatchCatch g e]\<rparr>"

definition emit_h :: "nat \<Rightarrow> 'a val \<Rightarrow> hook \<Rightarrow> ('a, 'k) state \<Rightarrow> ('a, 'k) state" where
  "emit_h g x h s = s\<lparr>timers := timers s @ [DispatchEmit g x h]\<rparr>"

text \<open>\<open>self._registeredEmits = []; self._registeredCatches = []; self._registeredDones = [];\<close>\<close>

definition new_generator :: "('a, 'k) state \<Rightarrow> nat \<times> ('a, 'k) state" where
  "new_generator s =
     (fresh s, s\<lparr>fresh := Suc (fresh s),
                 gens := (gens s)(fresh s :=
                   \<lparr>registeredEmits = [], registeredCatches = [], registeredDones = []\<rparr>)\<rparr>)"

text \<open>The array branch: \<open>cancelled\<close> is declared and every element is emitted with a hook
  that sets it, but the loop's condition is \<open>i < max\<close> alone.\<close>

fun array_loop :: "nat \<Rightarrow> nat \<Rightarrow> 'a val list \<Rightarrow> ('a, 'k) state \<Rightarrow> ('a, 'k) state" where
  "array_loop g c [] s = s"
| "array_loop g c (x # xs) s = array_loop g c xs (emit_h g x (SetFlag c) s)"

text \<open>The iterator branch: \<open>while (!cancelled && !(item = cb.next()).done)\<close>.\<close>

fun iterator_loop :: "nat \<Rightarrow> nat \<Rightarrow> 'a val list \<Rightarrow> ('a, 'k) state \<Rightarrow> ('a, 'k) state" where
  "iterator_loop g c [] s = s"
| "iterator_loop g c (x # xs) s =
     (if flags s c then s else iterator_loop g c xs (emit_h g x (SetFlag c) s))"

text \<open>The standard route \<open>cb(done, reject, emit)\<close> for a synchronous producer; the result
  tells whether the producer threw.\<close>

fun run_calls :: "nat \<Rightarrow> 'a call list \<Rightarrow> ('a, 'k) state \<Rightarrow> 'a val option \<times> ('a, 'k) state" where
  "run_calls g [] s = (None, s)"
| "run_calls g (CallEmit x # cs) s = run_calls g cs (emit_h g x NoHook s)"
| "run_calls g (CallDone # cs) s = run_calls g cs (done_h g s)"
| "run_calls g (CallReject e # cs) s = run_calls g cs (reject_h g e s)"
| "run_calls g (ThrowExn e # cs) s = (Some e, s)"

text \<open>\<open>new Generator(cb)\<close>. The result is \<open>Inl e\<close> when the constructor throws \<open>e\<close>, and
  \<open>Inr g\<close>, the new object, otherwise.\<close>

definition Generator :: "'a producer \<Rightarrow> ('a, 'k) state \<Rightarrow> ('a val + nat) \<times> ('a, 'k) state" where
  "Generator cb s =
     (let (g, s1) = new_generator s in
      case cb of
        Iterator xs \<Rightarrow>
          (let (c, s2) = alloc s1; s3 = s2\<lparr>flags := (flags s2)(c := False)\<rparr>
           in (Inr g, done_h g (iterator_loop g c xs s3)))
      | Array xs \<Rightarrow>
          (let (c, s2) = alloc s1; s3 = s2\<lparr>flags := (flags s2)(c := False)\<rparr>
           in (Inr g, done_h g (array_loop g c xs s3)))
      | PromiseSrc p \<Rightarrow> (Inr g, snd (then_p p (FromPromise g) s1))
      | Callback cs \<Rightarrow>
          (case run_calls g cs s1 of
             (None, s2) \<Rightarrow> (Inr g, s2)
           | (Some e, s2) \<Rightarrow> (Inl e, s2)))"

section \<open>Registering listeners\<close>

text \<open>The methods \<open>emit(cb)\<close>, \<open>catch(cb)\<close>, \<open>done(cb)\<close> and \<open>then(cb)\<close> of a
  generator; the suffix keeps them apart from Isabelle's keywords.\<close>

definition emit_g :: "nat \<Rightarrow> ('a, 'k) item_listener \<Rightarrow> ('a, 'k) state \<Rightarrow> ('a, 'k) state" where
  "emit_g g cb s =
     s\<lparr>gens := (gens s)(g := (gens s g)\<lparr>registeredEmits := registeredEmits (gens s g) @ [cb]\<rparr>)\<rparr>"

definition catch_g :: "nat \<Rightarrow> catch_listener \<Rightarrow> ('a, 'k) state \<Rightarrow> ('a, 'k) state" where
  "catch_g g cb s =
     s\<lparr>gens := (gens s)(g := (gens s g)\<lparr>registeredCatches := registeredCatches (gens s g) @ [cb]\<rparr>)\<rparr>"

definition done_g :: "nat \<Rightarrow> 'a done_listener \<Rightarrow> ('a, 'k) state \<Rightarrow> ('a, 'k) state" where
  "done_g g cb s =
     s\<lparr>gens := (gens s)(g := (gens s g)\<lparr>registeredDones := registeredDones (gens s g) @ [cb]\<rparr>)\<rparr>"

text \<open>\<open>done()\<close> without a callback: a promise resolved by a completion listener and
  rejected by a fault listener.\<close>

definition done_promise :: "nat \<Rightarrow> ('a, 'k) state \<Rightarrow> nat \<times> ('a, 'k) state" where
  "done_promise g s =
     (let (p, s1) = new_promise s in (p, catch_g g (RejectErr p) (done_g g (ResolveUnit p) s1)))"

text \<open>\<open>then(cb)\<close>: a promise, a fresh array \<open>items\<close>, an item listener that pushes onto
  it and a completion listener that calls \<open>cb(items)\<close>. No fault listener is registered.\<close>

definition then_g :: "nat \<Rightarrow> 'a thencb \<Rightarrow> ('a, 'k) state \<Rightarrow> nat \<times> ('a, 'k) state" where
  "then_g g cb s =
     (let (p, s1) = new_promise s;
          (a, s2) = alloc s1;
          s3 = s2\<lparr>arrs := (arrs s2)(a := [])\<rparr>
      in (p, done_g g (ThenDone a cb p) (emit_g g (ThenPush a) s3)))"

section \<open>The static combinators\<close>

text \<open>The inner loop of \<open>exclude\<close>: is there an \<open>itemB\<close> with
  \<open>comparator(itemA, itemB)\<close>?\<close>

fun skip_scan :: "('a val \<Rightarrow> 'a val \<Rightarrow> bool) \<Rightarrow> 'a val \<Rightarrow> 'a val list \<Rightarrow> bool" where
  "skip_scan comparator itemA [] = False"
| "skip_scan comparator itemA (itemB # itemsB) =
     (if comparator itemA itemB then True else skip_scan comparator itemA itemsB)"

fun exclude_loop ::
  "('a val \<Rightarrow> 'a val \<Rightarrow> bool) \<Rightarrow> nat \<Rightarrow> 'a val list \<Rightarrow> 'a val list \<Rightarrow> ('a, 'k) state \<Rightarrow> ('a, 'k) state" where
  "exclude_loop comparator g [] itemsB s = s"
| "exclude_loop comparator g (itemA # itemsA) itemsB s =
     exclude_loop comparator g itemsA itemsB
       (if skip_scan comparator itemA itemsB then s else emit_h g itemA NoHook s)"

text \<open>The function \<open>exclude\<close> passes to \<open>Promise.all([...]).then\<close>; \<open>itemsA\<close> and
  \<open>itemsB\<close> are variables that hold array references.\<close>

definition exclude_join ::
  "nat \<Rightarrow> nat \<Rightarrow> ('a val \<Rightarrow> 'a val \<Rightarrow> bool) \<Rightarrow> nat \<Rightarrow> ('a, 'k) state \<Rightarrow> ('a, 'k) state" where
  "exclude_join va vb comparator g s =
     done_h g (exclude_loop comparator g (arrs s (vars s va)) (arrs s (vars s vb)) s)"

definition new_array_var :: "('a, 'k) state \<Rightarrow> nat \<times> ('a, 'k) state" where
  "new_array_var s =
     (let (v, s1) = alloc s; (a, s2) = alloc s1
      in (v, s2\<lparr>vars := (vars s2)(v := a), arrs := (arrs s2)(a := [])\<rparr>))"

definition exclude ::
  "nat \<Rightarrow> nat \<Rightarrow> ('a val \<Rightarrow> 'a val \<Rightarrow> bool) option \<Rightarrow> ('a, 'k) state \<Rightarrow> nat \<times> ('a, 'k) state" where
  "exclude setA setB comparator s =
     (let cmp = (case comparator of None \<Rightarrow> (\<lambda>a b. a = b) | Some c \<Rightarrow> c);
          (g, s1) = new_generator s;
          (va, s2) = new_array_var s1;
          (vb, s3) = new_array_var s2;
          (pa, s4) = then_g setA (SetVar va) s3;
          (pb, s5) = then_g setB (SetVar vb) s4;
          (pall, s6) = promise_all [pa, pb] s5;
          (q, s7) = then_p pall (ExcludeJoin va vb cmp g) s6
      in (g, s7))"

text \<open>
  \<open>handleEmit\<close> of \<open>intersectByHash\<close>. \<open>map\<close> is an object literal, so \<open>map[id]\<close>
  is the own property when there is one and else the member of \<open>Object.prototype\<close> of that
  name, if any. \<open>if (map[id]) count = map[id]\<close> takes whatever is truthy: a number other
  than 0, a member, a string. \<open>count += 1\<close> adds to a number and appends to anything else,
  which gives a string that begins with the text of the member and is the decimal form of
  no number, so that \<open>count == generators.length\<close> is false for it.
\<close>

definition handleEmit_hash ::
  "nat \<Rightarrow> ('a val \<Rightarrow> 'k) \<Rightarrow> nat \<Rightarrow> nat \<Rightarrow> 'a val \<Rightarrow> ('a, 'k) state \<Rightarrow> ('a, 'k) state" where
  "handleEmit_hash m hasher K out x s =
     (let k = hasher x;
          found = (case maps s m k of
                     Some v \<Rightarrow> Some v
                   | None \<Rightarrow> (if proto_members s k then Some Member else None));
          count0 = (case found of
                      Some (Count c) \<Rightarrow> (if c \<noteq> 0 then Count c else Count 0)
                    | Some v \<Rightarrow> v
                    | None \<Rightarrow> Count 0);
          count1 = (case count0 of Count c \<Rightarrow> Count (c + 1) | v \<Rightarrow> Text);
          s1 = s\<lparr>maps := (maps s)(m := (maps s m)(k \<mapsto> count1))\<rparr>
      in if count1 = Count K then emit_h out x NoHook s1 else s1)"

text \<open>The scan of \<open>distinctItems\<close> in \<open>handleEmit\<close> of \<open>intersectByComparison\<close>:
  \<open>None\<close> when no record matches, else the updated records and the item to emit, if
  any.\<close>

fun scan_distinct ::
  "('a val \<Rightarrow> 'a val \<Rightarrow> bool) \<Rightarrow> nat \<Rightarrow> 'a val \<Rightarrow> 'a distinct_item list
     \<Rightarrow> ('a distinct_item list \<times> 'a val option) option" where
  "scan_distinct comparator K x [] = None"
| "scan_distinct comparator K x (d # ds) =
     (if comparator (item d) x then
        (let d1 = d\<lparr>count := count d + 1\<rparr> in
         if \<not> emitted d1 \<and> count d1 = K
         then Some (d1\<lparr>emitted := True\<rparr> # ds, Some (item d1))
         else Some (d1 # ds, None))
      else map_option (\<lambda>(ds', e). (d # ds', e)) (scan_distinct comparator K x ds))"

definition handleEmit_cmp ::
  "nat \<Rightarrow> ('a val \<Rightarrow> 'a val \<Rightarrow> bool) \<Rightarrow> nat \<Rightarrow> nat \<Rightarrow> 'a val \<Rightarrow> ('a, 'k) state \<Rightarrow> ('a, 'k) state" where
  "handleEmit_cmp d comparator K out x s =
     (case scan_distinct comparator K x (dists s d) of
        Some (ds', e) \<Rightarrow>
          (let s1 = s\<lparr>dists := (dists s)(d := ds')\<rparr>
           in case e of Some y \<Rightarrow> emit_h out y NoHook s1 | None \<Rightarrow> s1)
      | None \<Rightarrow>
          (let distinctItem = \<lparr>item = x, count = 1, emitted = False\<rparr> in
           if count distinctItem = K
           then (let s1 = emit_h out (item distinctItem) NoHook s
                 in s1\<lparr>dists := (dists s1)(d := dists s1 d @ [distinctItem\<lparr>emitted := True\<rparr>])\<rparr>)
           else s\<lparr>dists := (dists s)(d := dists s d @ [distinctItem])\<rparr>))"

text \<open>The loop over \<open>generators\<close> in \<open>intersectByHash\<close>; every input is a generator, so
  the branch \<open>if (generator.emit)\<close> is taken. The result is the array \<open>handlers\<close>.\<close>

fun hash_inputs ::
  "nat list \<Rightarrow> ('a, 'k) item_listener \<Rightarrow> ('a, 'k) state \<Rightarrow> nat list \<times> ('a, 'k) state" where
  "hash_inputs [] h s = ([], s)"
| "hash_inputs (g # gs) h s =
     (let (p, s1) = new_promise s;
          s2 = done_g g (ResolveUnit p) (emit_g g h s1);
          (ps, s3) = hash_inputs gs h s2
      in (p # ps, s3))"

definition intersectByHash ::
  "nat list \<Rightarrow> ('a val \<Rightarrow> 'k) \<Rightarrow> ('a, 'k) state \<Rightarrow> nat \<times> ('a, 'k) state" where
  "intersectByHash generators hasher s =
     (let (out, s1) = new_generator s;
          (m, s2) = alloc s1;
          s3 = s2\<lparr>maps := (maps s2)(m := Map.empty)\<rparr>;
          (handlers, s4) =
             hash_inputs generators (HandleEmitHash m hasher (length generators) out) s3;
          (pall, s5) = promise_all handlers s4;
          (q, s6) = then_p pall (CallDoneOf out) s5
      in (out, s6))"

text \<open>The same loop in \<open>intersectByComparison\<close>, which waits for an input with
  \<open>generator.emit(handleEmit).then(function() { resolve(); })\<close>.\<close>

fun cmp_inputs ::
  "nat list \<Rightarrow> ('a, 'k) item_listener \<Rightarrow> ('a, 'k) state \<Rightarrow> nat list \<times> ('a, 'k) state" where
  "cmp_inputs [] h s = ([], s)"
| "cmp_inputs (g # gs) h s =
     (let (p, s1) = new_promise s;
          (q, s2) = then_g g (ResolveOuter p) (emit_g g h s1);
          (ps, s3) = cmp_inputs gs h s2
      in (p # ps, s3))"

definition intersectByComparison ::
  "nat list \<Rightarrow> ('a val \<Rightarrow> 'a val \<Rightarrow> bool) \<Rightarrow> ('a, 'k) state \<Rightarrow> nat \<times> ('a, 'k) state" where
  "intersectByComparison generators comparator s =
     (let (out, s1) = new_generator s;
          (d, s2) = alloc s1;
          s3 = s2\<lparr>dists := (dists s2)(d := [])\<rparr>;
          (handlers, s4) =
             cmp_inputs generators (HandleEmitCmp d comparator (length generators) out) s3;
          (pall, s5) = promise_all handlers s4;
          (q, s6) = then_p pall (CallDoneOf out) s5
      in (out, s6))"

section \<open>Calling listeners\<close>

text \<open>An item listener is called with the item and the hook; the result tells whether it
  threw. Only the user's listener that calls an \<open>undefined\<close> hook throws.\<close>

fun call_item ::
  "('a, 'k) item_listener \<Rightarrow> 'a val \<Rightarrow> hook \<Rightarrow> ('a, 'k) state \<Rightarrow> bool \<times> ('a, 'k) state" where
  "call_item (ThenPush a) x h s = (False, s\<lparr>arrs := (arrs s)(a := arrs s a @ [x])\<rparr>)"
| "call_item (HandleEmitHash m hasher K out) x h s = (False, handleEmit_hash m hasher K out x s)"
| "call_item (HandleEmitCmp d comparator K out) x h s =
     (False, handleEmit_cmp d comparator K out x s)"
| "call_item (ObserveItem n) x h s = (False, s\<lparr>log := log s @ [SawItem n x]\<rparr>)"
| "call_item (ObserveItemCancel n) x h s =
     (let s1 = s\<lparr>log := log s @ [SawItem n x]\<rparr> in
      case h of
        NoHook \<Rightarrow> (True, s1)
      | SetFlag c \<Rightarrow> (False, s1\<lparr>flags := (flags s1)(c := True)\<rparr>)
      | Noop \<Rightarrow> (False, s1))"

text \<open>The completion listener of \<open>then\<close> is
  \<open>try { var result = cb(items); resolve(result); } catch (e) { reject(e); }\<close>.\<close>

fun call_done :: "'a done_listener \<Rightarrow> ('a, 'k) state \<Rightarrow> ('a, 'k) state" where
  "call_done (ThenDone a (SetVar v) p) s = resolve_p p Undefined (s\<lparr>vars := (vars s)(v := a)\<rparr>)"
| "call_done (ThenDone a (ResolveOuter q) p) s = resolve_p p Undefined (resolve_p q Undefined s)"
| "call_done (ThenDone a (UserFn f) p) s =
     (case f (arrs s a) of Return r \<Rightarrow> resolve_p p r s | Throw e \<Rightarrow> reject_p p e s)"
| "call_done (ResolveUnit p) s = resolve_p p Undefined s"
| "call_done (ObserveDone n) s = s\<lparr>log := log s @ [SawDone n]\<rparr>"

fun call_catch :: "catch_listener \<Rightarrow> 'a val \<Rightarrow> ('a, 'k) state \<Rightarrow> ('a, 'k) state" where
  "call_catch (RejectErr p) e s = reject_p p e s"
| "call_catch (ObserveFault n) e s = s\<lparr>log := log s @ [SawFault n e]\<rparr>"

text \<open>\<open>callback(fns, args)\<close> calls the listeners in the order of registration; a listener
  that throws ends the loop. No listener of this model registers or removes a listener, so
  the array the loop walks is the one it started with.\<close>

fun callback_emits ::
  "('a, 'k) item_listener list \<Rightarrow> 'a val \<Rightarrow> hook \<Rightarrow> ('a, 'k) state \<Rightarrow> bool \<times> ('a, 'k) state" where
  "callback_emits [] x h s = (False, s)"
| "callback_emits (f # fns) x h s =
     (case call_item f x h s of
        (True, s1) \<Rightarrow> (True, s1)
      | (False, s1) \<Rightarrow> callback_emits fns x h s1)"

fun callback_dones :: "'a done_listener list \<Rightarrow> ('a, 'k) state \<Rightarrow> ('a, 'k) state" where
  "callback_dones [] s = s"
| "callback_dones (f # fns) s = callback_dones fns (call_done f s)"

fun callback_catches :: "catch_listener list \<Rightarrow> 'a val \<Rightarrow> ('a, 'k) state \<Rightarrow> ('a, 'k) state" where
  "callback_catches [] e s = s"
| "callback_catches (f # fns) e s = callback_catches fns e (call_catch f e s)"

section \<open>The legacy variant of the constructor\<close>

text \<open>In \<open>Generator.js\<close> the constructor only sets one timer, whose task classifies the
  producer and drives it; \<open>emit\<close>, \<open>done\<close> and \<open>reject\<close> call the listeners at once,
  and an item listener receives the item alone.\<close>

definition Generator_legacy :: "'a producer \<Rightarrow> ('a, 'k) state \<Rightarrow> nat \<times> ('a, 'k) state" where
  "Generator_legacy cb s =
     (let (g, s1) = new_generator s in (g, s1\<lparr>timers := timers s1 @ [LegacyStart g cb]\<rparr>))"

fun legacy_items :: "nat \<Rightarrow> 'a val list \<Rightarrow> ('a, 'k) state \<Rightarrow> bool \<times> ('a, 'k) state" where
  "legacy_items g [] s = (False, s)"
| "legacy_items g (x # xs) s =
     (case callback_emits (registeredEmits (gens s g)) x NoHook s of
        (True, s1) \<Rightarrow> (True, s1)
      | (False, s1) \<Rightarrow> legacy_items g xs s1)"

fun legacy_calls :: "nat \<Rightarrow> 'a call list \<Rightarrow> ('a, 'k) state \<Rightarrow> ('a, 'k) state" where
  "legacy_calls g [] s = s"
| "legacy_calls g (CallEmit x # cs) s =
     (case callback_emits (registeredEmits (gens s g)) x NoHook s of
        (True, s1) \<Rightarrow> s1
      | (False, s1) \<Rightarrow> legacy_calls g cs s1)"
| "legacy_calls g (CallDone # cs) s = legacy_calls g cs (callback_dones (registeredDones (gens s g)) s)"
| "legacy_calls g (CallReject e # cs) s =
     legacy_calls g cs (callback_catches (registeredCatches (gens s g)) e s)"
| "legacy_calls g (ThrowExn e # cs) s = s"

text \<open>The task of the legacy constructor. It has no promise branch: a promise reaches
  \<open>cb(done, reject, emit)\<close>, which throws a TypeError that nothing catches.\<close>

fun legacy_start :: "nat \<Rightarrow> 'a producer \<Rightarrow> ('a, 'k) state \<Rightarrow> ('a, 'k) state" where
  "legacy_start g (Iterator xs) s =
     (case legacy_items g xs s of
        (True, s1) \<Rightarrow> s1
      | (False, s1) \<Rightarrow> callback_dones (registeredDones (gens s1 g)) s1)"
| "legacy_start g (Array xs) s =
     (case legacy_items g xs s of
        (True, s1) \<Rightarrow> s1
      | (False, s1) \<Rightarrow> callback_dones (registeredDones (gens s1 g)) s1)"
| "legacy_start g (PromiseSrc p) s = s"
| "legacy_start g (Callback cs) s = legacy_calls g cs s"

section \<open>The event loop\<close>

fun run_task :: "'a task \<Rightarrow> ('a, 'k) state \<Rightarrow> ('a, 'k) state" where
  "run_task (DispatchEmit g x h) s = snd (callback_emits (registeredEmits (gens s g)) x h s)"
| "run_task (DispatchDone g) s = callback_dones (registeredDones (gens s g)) s"
| "run_task (DispatchCatch g e) s = callback_catches (registeredCatches (gens s g)) e s"
| "run_task (LegacyStart g cb) s = legacy_start g cb s"

text \<open>A promise job calls the reaction and resolves the derived promise with what the
  reaction returns (\<open>undefined\<close> for all of them). A rejection passes through a reaction
  that has no rejection handler; \<open>Promise.all\<close> rejects its result.\<close>

fun run_job :: "'a job \<Rightarrow> ('a, 'k) state \<Rightarrow> ('a, 'k) state" where
  "run_job (Fulfil (AllElement pa i) q v) s =
     (let s1 = s\<lparr>allvalues := (allvalues s)(pa := (allvalues s pa)[i := v]),
                 remaining := (remaining s)(pa := remaining s pa - 1)\<rparr>;
          s2 = (if remaining s1 pa = 0 then resolve_p pa (Arr (allvalues s1 pa)) s1 else s1)
      in resolve_p q Undefined s2)"
| "run_job (Fulfil (ExcludeJoin va vb comparator g) q v) s =
     resolve_p q Undefined (exclude_join va vb comparator g s)"
| "run_job (Fulfil (CallDoneOf g) q v) s = resolve_p q Undefined (done_h g s)"
| "run_job (Fulfil (FromPromise g) q v) s = resolve_p q Undefined (done_h g (emit_h g v Noop s))"
| "run_job (Reject (AllElement pa i) q e) s = resolve_p q Undefined (reject_p pa e s)"
| "run_job (Reject r q e) s = reject_p q e s"

text \<open>One turn of the loop: the oldest promise job if there is one, else the oldest
  timer.\<close>

definition step :: "('a, 'k) state \<Rightarrow> ('a, 'k) state" where
  "step s =
     (case jobs s of
        j # js \<Rightarrow> run_job j (s\<lparr>jobs := js\<rparr>)
      | [] \<Rightarrow> (case timers s of t # ts \<Rightarrow> run_task t (s\<lparr>timers := ts\<rparr>) | [] \<Rightarrow> s))"

text \<open>The loop runs until both queues are empty; \<open>None\<close> is a loop that never gets
  there.\<close>

partial_function (option) run :: "('a, 'k) state \<Rightarrow> ('a, 'k) state option" where
  "run s = (if jobs s = [] \<and> timers s = [] then Some s else run (step s))"

declare run.simps [code]


text \<open>\<open>Promise.resolve(v)\<close> and \<open>Promise.reject(e)\<close> of the host.\<close>

definition promise_resolve :: "'a val \<Rightarrow> ('a, 'k) state \<Rightarrow> nat \<times> ('a, 'k) state" where
  "promise_resolve v s = (let (p, s1) = new_promise s in (p, resolve_p p v s1))"

definition promise_reject :: "'a val \<Rightarrow> ('a, 'k) state \<Rightarrow> nat \<times> ('a, 'k) state" where
  "promise_reject e s = (let (p, s1) = new_promise s in (p, reject_p p e s1))"

section \<open>Observers and expected observations\<close>

text \<open>A user who registers one recording listener of each kind, all under the label
  \<open>n\<close>, right after construction.\<close>

definition observe_all :: "nat \<Rightarrow> nat \<Rightarrow> ('a, 'k) state \<Rightarrow> ('a, 'k) state" where
  "observe_all g n s =
     catch_g g (ObserveFault n) (done_g g (ObserveDone n) (emit_g g (ObserveItem n) s))"

definition observed :: "nat \<Rightarrow> nat \<Rightarrow> ('a, 'k) state \<Rightarrow> bool" where
  "observed g n s \<longleftrightarrow>
     gens s g = \<lparr>registeredEmits = [ObserveItem n], registeredCatches = [ObserveFault n],
                 registeredDones = [ObserveDone n]\<rparr>"

fun task_obs :: "nat \<Rightarrow> 'a task \<Rightarrow> 'a obs list" where
  "task_obs n (DispatchEmit g x h) = [SawItem n x]"
| "task_obs n (DispatchDone g) = [SawDone n]"
| "task_obs n (DispatchCatch g e) = [SawFault n e]"
| "task_obs n (LegacyStart g cb) = []"

fun task_on :: "nat \<Rightarrow> 'a task \<Rightarrow> bool" where
  "task_on g (DispatchEmit g' x h) = (g' = g)"
| "task_on g (DispatchDone g') = (g' = g)"
| "task_on g (DispatchCatch g' e) = (g' = g)"
| "task_on g (LegacyStart g' cb) = False"

fun is_throw :: "'a call \<Rightarrow> bool" where
  "is_throw (ThrowExn e) = True"
| "is_throw c = False"

fun call_task :: "nat \<Rightarrow> 'a call \<Rightarrow> 'a task list" where
  "call_task g (CallEmit x) = [DispatchEmit g x NoHook]"
| "call_task g CallDone = [DispatchDone g]"
| "call_task g (CallReject e) = [DispatchCatch g e]"
| "call_task g (ThrowExn e) = []"

fun call_obs :: "nat \<Rightarrow> 'a call \<Rightarrow> 'a obs list" where
  "call_obs n (CallEmit x) = [SawItem n x]"
| "call_obs n CallDone = [SawDone n]"
| "call_obs n (CallReject e) = [SawFault n e]"
| "call_obs n (ThrowExn e) = []"

text \<open>The events of a producer, as the three observers should record them: the items of
  an array or iterator and then the completion, the calls of a callback-style producer in
  order, the value of a fulfilled promise and then the completion.\<close>

fun expected :: "nat \<Rightarrow> ('a, 'k) state \<Rightarrow> 'a producer \<Rightarrow> 'a obs list" where
  "expected n s (Array xs) = map (SawItem n) xs @ [SawDone n]"
| "expected n s (Iterator xs) = map (SawItem n) xs @ [SawDone n]"
| "expected n s (Callback cs) = concat (map (call_obs n) cs)"
| "expected n s (PromiseSrc p) =
     (case pstate (proms s p) of Fulfilled v \<Rightarrow> [SawItem n v, SawDone n] | _ \<Rightarrow> [])"

text \<open>The same for the legacy constructor, where a producer that throws ends its own
  run, and a promise is not a producer.\<close>

fun expected_legacy :: "nat \<Rightarrow> 'a producer \<Rightarrow> 'a obs list" where
  "expected_legacy n (Array xs) = map (SawItem n) xs @ [SawDone n]"
| "expected_legacy n (Iterator xs) = map (SawItem n) xs @ [SawDone n]"
| "expected_legacy n (Callback cs) =
     concat (map (call_obs n) (takeWhile (\<lambda>c. \<not> is_throw c) cs))"
| "expected_legacy n (PromiseSrc p) = []"

text \<open>A producer that can be handed to the constructor and returns: a callback-style
  producer that does not throw, a promise that exists and is fulfilled, or is pending with
  nothing waiting for it yet.\<close>

fun ready :: "('a, 'k) state \<Rightarrow> 'a producer \<Rightarrow> bool" where
  "ready s (Callback cs) = (\<not> list_ex is_throw cs)"
| "ready s (PromiseSrc p) =
     (p < fresh s \<and>
      (case pstate (proms s p) of
         Pending \<Rightarrow> reactions (proms s p) = [] | Fulfilled v \<Rightarrow> True | Rejected e \<Rightarrow> False))"
| "ready s cb = True"




text \<open>A generator on which \<open>then(f)\<close> has just been called, for a function \<open>f\<close> of the
  user: the two listeners of \<open>then\<close> over the array at \<open>a\<close>, and the promise \<open>p\<close>
  pending.\<close>

definition then_ready ::
  "nat \<Rightarrow> nat \<Rightarrow> ('a val list \<Rightarrow> 'a result) \<Rightarrow> nat \<Rightarrow> ('a, 'k) state \<Rightarrow> bool" where
  "then_ready g a f p s \<longleftrightarrow>
     registeredEmits (gens s g) = [ThenPush a] \<and>
     registeredDones (gens s g) = [ThenDone a (UserFn f) p] \<and>
     proms s p = \<lparr>pstate = Pending, reactions = []\<rparr> \<and> jobs s = []"

section \<open>Input streams of a combinator\<close>

text \<open>
  The input streams of a combinator are generators on which nothing is registered yet and
  whose pending events are timers of the runtime, in any interleaving. The items the
  pending timers will deliver, in order, for one generator and for all:
\<close>

fun items_on :: "nat \<Rightarrow> 'a task list \<Rightarrow> 'a val list" where
  "items_on g [] = []"
| "items_on g (DispatchEmit g' x h # ts) = (if g' = g then x # items_on g ts else items_on g ts)"
| "items_on g (t # ts) = items_on g ts"

fun items_of :: "'a task list \<Rightarrow> 'a val list" where
  "items_of [] = []"
| "items_of (DispatchEmit g x h # ts) = x # items_of ts"
| "items_of (t # ts) = items_of ts"

text \<open>Every input stream completes.\<close>

definition completes :: "nat list \<Rightarrow> 'a task list \<Rightarrow> bool" where
  "completes gs ts = list_all (\<lambda>g. list_ex (\<lambda>t. t = DispatchDone g) ts) gs"

text \<open>No stream emits after it has completed.\<close>

fun quiet_after_done :: "'a task list \<Rightarrow> bool" where
  "quiet_after_done [] = True"
| "quiet_after_done (DispatchDone g # ts) = (items_on g ts = [] \<and> quiet_after_done ts)"
| "quiet_after_done (t # ts) = quiet_after_done ts"

definition inputs_only :: "nat list \<Rightarrow> 'a task list \<Rightarrow> bool" where
  "inputs_only gs ts = list_all (\<lambda>t. list_ex (\<lambda>g. task_on g t) gs) ts"

definition inputs_pending :: "nat list \<Rightarrow> ('a, 'k) state \<Rightarrow> bool" where
  "inputs_pending gs s \<longleftrightarrow>
     jobs s = [] \<and> distinct gs \<and>
     list_all (\<lambda>g. g < fresh s \<and>
        gens s g = \<lparr>registeredEmits = [], registeredCatches = [], registeredDones = []\<rparr>) gs \<and>
     inputs_only gs (timers s)"

definition barrier ::
  "(nat \<Rightarrow> nat) \<Rightarrow> (nat \<Rightarrow> nat) \<Rightarrow> nat \<Rightarrow> nat \<Rightarrow> 'a reaction \<Rightarrow> nat list \<Rightarrow> nat set
     \<Rightarrow> ('a, 'k) state \<Rightarrow> bool" where
  "barrier pid qid pall qf R gs T s \<longleftrightarrow>
     distinct gs \<and> T \<subseteq> set gs \<and> pall \<noteq> qf \<and>
     (\<forall>i<length gs. \<forall>j<length gs.
        pid i \<noteq> qid j \<and> pid i \<noteq> pall \<and> pid i \<noteq> qf \<and> qid i \<noteq> pall \<and> qid i \<noteq> qf \<and>
        (pid i = pid j \<longrightarrow> i = j)) \<and>
     (\<forall>i<length gs.
        if gs ! i \<in> T
        then proms s (pid i) = \<lparr>pstate = Pending, reactions = [(AllElement pall i, qid i)]\<rparr>
        else pstate (proms s (pid i)) \<noteq> Pending) \<and>
     (\<forall>i<length gs. reactions (proms s (qid i)) = []) \<and>
     reactions (proms s qf) = [] \<and>
     remaining s pall = card T \<and>
     (T \<noteq> {} \<longrightarrow> proms s pall = \<lparr>pstate = Pending, reactions = [(R, qf)]\<rparr>)"


section \<open>What an intersection should emit\<close>

text \<open>
  The number of items of \<open>seen\<close> that share the key of \<open>x\<close>, and the items of a sequence
  of arrivals that are the \<open>K\<close>-th arrival of their key: an item is kept when one more than
  the number of earlier arrivals with its key is \<open>K\<close>.
\<close>

definition occurrences :: "('a val \<Rightarrow> 'k) \<Rightarrow> 'a val list \<Rightarrow> 'a val \<Rightarrow> nat" where
  "occurrences hasher seen x = length (filter (\<lambda>y. hasher y = hasher x) seen)"

fun kth_from :: "nat \<Rightarrow> ('a val \<Rightarrow> 'k) \<Rightarrow> 'a val list \<Rightarrow> 'a val list \<Rightarrow> 'a val list" where
  "kth_from K hasher seen [] = []"
| "kth_from K hasher seen (x # xs) =
     (if Suc (occurrences hasher seen x) = K then [x] else []) @ kth_from K hasher (seen @ [x]) xs"

definition kth_occurrences :: "nat \<Rightarrow> ('a val \<Rightarrow> 'k) \<Rightarrow> 'a val list \<Rightarrow> 'a val list" where
  "kth_occurrences K hasher xs = kth_from K hasher [] xs"

text \<open>The \<open>map\<close> object of \<open>intersectByHash\<close> after the arrivals \<open>seen\<close>, on a host whose
  \<open>Object.prototype\<close> defines the keys in \<open>inh\<close>: a key that names a member holds a string
  from its first arrival on, any other key the number of its arrivals.\<close>

definition count_map :: "('k \<Rightarrow> bool) \<Rightarrow> ('a val \<Rightarrow> 'k) \<Rightarrow> 'a val list \<Rightarrow> 'k \<Rightarrow> slot option" where
  "count_map inh hasher seen k =
     (if list_ex (\<lambda>y. hasher y = k) seen
      then Some (if inh k then Text else Count (length (filter (\<lambda>y. hasher y = k) seen)))
      else None)"

text \<open>The items \<open>intersectByHash\<close> emits for the arrivals \<open>xs\<close>: the \<open>K\<close>-th arrivals
  of the keys that do not name a member of \<open>Object.prototype\<close>.\<close>

definition hash_emitted ::
  "('k \<Rightarrow> bool) \<Rightarrow> nat \<Rightarrow> ('a val \<Rightarrow> 'k) \<Rightarrow> 'a val list \<Rightarrow> 'a val list" where
  "hash_emitted inh K hasher xs = filter (\<lambda>x. \<not> inh (hasher x)) (kth_occurrences K hasher xs)"

text \<open>The timers \<open>intersectByHash\<close> sets on its output \<open>out\<close> while the pending timers
  \<open>ts\<close> of its inputs run; \<open>T\<close> is the set of inputs that have not completed.\<close>

fun hash_out ::
  "('k \<Rightarrow> bool) \<Rightarrow> nat \<Rightarrow> nat \<Rightarrow> ('a val \<Rightarrow> 'k) \<Rightarrow> 'a val list \<Rightarrow> nat set \<Rightarrow> 'a task list
     \<Rightarrow> 'a task list" where
  "hash_out inh out K hasher seen T [] = []"
| "hash_out inh out K hasher seen T (DispatchEmit g x h # ts) =
     (if \<not> inh (hasher x) \<and> Suc (occurrences hasher seen x) = K
      then [DispatchEmit out x NoHook] else []) @
     hash_out inh out K hasher (seen @ [x]) T ts"
| "hash_out inh out K hasher seen T (DispatchDone g # ts) =
     (if T = {g} then [DispatchDone out] else []) @ hash_out inh out K hasher seen (T - {g}) ts"
| "hash_out inh out K hasher seen T (t # ts) = hash_out inh out K hasher seen T ts"

text \<open>The runtime while the inputs of \<open>intersectByHash\<close>, called at \<open>fresh = f\<close>, run.\<close>

definition hash_inv ::
  "nat \<Rightarrow> nat list \<Rightarrow> ('a val \<Rightarrow> 'k) \<Rightarrow> nat \<Rightarrow> 'a val list \<Rightarrow> nat set \<Rightarrow> ('a, 'k) state \<Rightarrow> bool" where
  "hash_inv f gs hasher n seen T s \<longleftrightarrow>
     list_all (\<lambda>g. g < f) gs \<and> jobs s = [] \<and> observed f n s \<and>
     maps s (Suc f) = count_map (proto_members s) hasher seen \<and>
     (\<forall>i<length gs. gens s (gs ! i) =
        \<lparr>registeredEmits = [HandleEmitHash (Suc f) hasher (length gs) f], registeredCatches = [],
          registeredDones = [ResolveUnit (Suc (Suc (f + i)))]\<rparr>) \<and>
     barrier (\<lambda>i. Suc (Suc (f + i))) (\<lambda>i. Suc (Suc (Suc (f + length gs + i))))
       (Suc (Suc (f + length gs))) (Suc (Suc (Suc (f + length gs + length gs))))
       (CallDoneOf f) gs T s"

section \<open>What \<open>exclude\<close> should emit\<close>

text \<open>The timers \<open>exclude\<close> sets on its output \<open>out\<close> while the pending timers \<open>ts\<close> of
  its inputs \<open>a\<close> and \<open>b\<close> run: \<open>A\<close> and \<open>B\<close> are the items collected so far and \<open>T\<close>
  is the set of inputs that have not completed.\<close>

definition join_tasks ::
  "nat \<Rightarrow> ('a val \<Rightarrow> 'a val \<Rightarrow> bool) \<Rightarrow> 'a val list \<Rightarrow> 'a val list \<Rightarrow> 'a task list" where
  "join_tasks out comparator A B =
     map (\<lambda>x. DispatchEmit out x NoHook) (filter (\<lambda>x. \<not> list_ex (comparator x) B) A) @
     [DispatchDone out]"

fun excl_out ::
  "nat \<Rightarrow> ('a val \<Rightarrow> 'a val \<Rightarrow> bool) \<Rightarrow> nat \<Rightarrow> nat \<Rightarrow> 'a val list \<Rightarrow> 'a val list \<Rightarrow> nat set
     \<Rightarrow> 'a task list \<Rightarrow> 'a task list" where
  "excl_out out comparator a b A B T [] = []"
| "excl_out out comparator a b A B T (DispatchEmit g x h # ts) =
     excl_out out comparator a b (if g = a then A @ [x] else A) (if g = b then B @ [x] else B) T ts"
| "excl_out out comparator a b A B T (DispatchDone g # ts) =
     (if T = {g} then join_tasks out comparator A B else []) @
     excl_out out comparator a b A B (T - {g}) ts"
| "excl_out out comparator a b A B T (t # ts) = excl_out out comparator a b A B T ts"

text \<open>The runtime while the inputs of \<open>exclude\<close>, called at \<open>fresh = f\<close>, run.\<close>

definition exclude_inv ::
  "nat \<Rightarrow> nat \<Rightarrow> nat \<Rightarrow> ('a val \<Rightarrow> 'a val \<Rightarrow> bool) \<Rightarrow> nat \<Rightarrow> 'a val list \<Rightarrow> 'a val list \<Rightarrow> nat set
     \<Rightarrow> ('a, 'k) state \<Rightarrow> bool" where
  "exclude_inv f a b comparator n A B T s \<longleftrightarrow>
     a < f \<and> b < f \<and> jobs s = [] \<and> observed f n s \<and>
     gens s a = \<lparr>registeredEmits = [ThenPush (f + 6)], registeredCatches = [],
                 registeredDones = [ThenDone (f + 6) (SetVar (f + 1)) (f + 5)]\<rparr> \<and>
     gens s b = \<lparr>registeredEmits = [ThenPush (f + 8)], registeredCatches = [],
                 registeredDones = [ThenDone (f + 8) (SetVar (f + 3)) (f + 7)]\<rparr> \<and>
     arrs s (f + 6) = A \<and> arrs s (f + 8) = B \<and>
     (a \<notin> T \<longrightarrow> vars s (f + 1) = f + 6) \<and> (b \<notin> T \<longrightarrow> vars s (f + 3) = f + 8) \<and>
     barrier (\<lambda>i. f + 5 + 2 * i) (\<lambda>i. f + 10 + i) (f + 9) (f + 12)
       (ExcludeJoin (f + 1) (f + 3) comparator f) [a, b] T s"

section \<open>What a comparison intersection should emit\<close>

text \<open>
  \<open>handleEmit\<close> of \<open>intersectByComparison\<close> as a function of \<open>distinctItems\<close>: the
  records after the call and the item it emits, if any.
\<close>

definition record_item ::
  "nat \<Rightarrow> ('a val \<Rightarrow> 'a val \<Rightarrow> bool) \<Rightarrow> 'a val \<Rightarrow> 'a distinct_item list
     \<Rightarrow> 'a distinct_item list \<times> 'a val option" where
  "record_item K comparator x ds =
     (case scan_distinct comparator K x ds of
        Some r \<Rightarrow> r
      | None \<Rightarrow> (ds @ [\<lparr>item = x, count = 1, emitted = (1 = K)\<rparr>],
                 if 1 = K then Some x else None))"

text \<open>The items \<open>intersectByComparison\<close> emits for a sequence of arrivals, starting from
  the records \<open>ds\<close>.\<close>

fun cmp_from ::
  "nat \<Rightarrow> ('a val \<Rightarrow> 'a val \<Rightarrow> bool) \<Rightarrow> 'a distinct_item list \<Rightarrow> 'a val list \<Rightarrow> 'a val list" where
  "cmp_from K comparator ds [] = []"
| "cmp_from K comparator ds (x # xs) =
     (case snd (record_item K comparator x ds) of Some y \<Rightarrow> [y] | None \<Rightarrow> []) @
     cmp_from K comparator (fst (record_item K comparator x ds)) xs"

text \<open>The timers \<open>intersectByComparison\<close> sets on its output \<open>out\<close> while the pending
  timers \<open>ts\<close> of its inputs run.\<close>

fun cmp_out ::
  "nat \<Rightarrow> nat \<Rightarrow> ('a val \<Rightarrow> 'a val \<Rightarrow> bool) \<Rightarrow> 'a distinct_item list \<Rightarrow> nat set \<Rightarrow> 'a task list
     \<Rightarrow> 'a task list" where
  "cmp_out out K comparator ds T [] = []"
| "cmp_out out K comparator ds T (DispatchEmit g x h # ts) =
     (case snd (record_item K comparator x ds) of
        Some y \<Rightarrow> [DispatchEmit out y NoHook] | None \<Rightarrow> []) @
     cmp_out out K comparator (fst (record_item K comparator x ds)) T ts"
| "cmp_out out K comparator ds T (DispatchDone g # ts) =
     (if T = {g} then [DispatchDone out] else []) @ cmp_out out K comparator ds (T - {g}) ts"
| "cmp_out out K comparator ds T (t # ts) = cmp_out out K comparator ds T ts"

text \<open>The runtime while the inputs of \<open>intersectByComparison\<close>, called at
  \<open>fresh = f\<close>, run. Input \<open>i\<close> owns three cells: the promise of its handler, the promise
  of its \<open>then\<close> and the array of its \<open>then\<close>.\<close>

definition cmp_inv ::
  "nat \<Rightarrow> nat list \<Rightarrow> ('a val \<Rightarrow> 'a val \<Rightarrow> bool) \<Rightarrow> nat \<Rightarrow> 'a distinct_item list \<Rightarrow> nat set
     \<Rightarrow> ('a, 'k) state \<Rightarrow> bool" where
  "cmp_inv f gs comparator n ds T s \<longleftrightarrow>
     list_all (\<lambda>g. g < f) gs \<and> jobs s = [] \<and> observed f n s \<and>
     dists s (Suc f) = ds \<and>
     (\<forall>i<length gs. gens s (gs ! i) =
        \<lparr>registeredEmits = [HandleEmitCmp (Suc f) comparator (length gs) f,
                             ThenPush (Suc (Suc (Suc (Suc (f + 3 * i)))))],
          registeredCatches = [],
          registeredDones = [ThenDone (Suc (Suc (Suc (Suc (f + 3 * i)))))
                               (ResolveOuter (Suc (Suc (f + 3 * i))))
                               (Suc (Suc (Suc (f + 3 * i))))]\<rparr>) \<and>
     (\<forall>i<length gs. reactions (proms s (Suc (Suc (Suc (f + 3 * i))))) = []) \<and>
     barrier (\<lambda>i. Suc (Suc (f + 3 * i))) (\<lambda>i. Suc (Suc (Suc (f + 3 * length gs + i))))
       (Suc (Suc (f + 3 * length gs))) (Suc (Suc (Suc (f + 3 * length gs + length gs))))
       (CallDoneOf f) gs T s"

text \<open>The records of \<open>intersectByComparison\<close> and the arrivals \<open>seen\<close> agree when the
  records have different keys, every record counts the arrivals with its key and is
  marked emitted when the count has reached \<open>K\<close>, and every arrival has a record.\<close>

definition records_agree ::
  "nat \<Rightarrow> ('a val \<Rightarrow> 'k) \<Rightarrow> 'a distinct_item list \<Rightarrow> 'a val list \<Rightarrow> bool" where
  "records_agree K hasher ds seen \<longleftrightarrow>
     distinct (map (\<lambda>d. hasher (item d)) ds) \<and>
     (\<forall>d\<in>set ds. count d = occurrences hasher seen (item d) \<and>
                  (emitted d \<longleftrightarrow> 0 < K \<and> K \<le> count d)) \<and>
     (\<forall>x\<in>set seen. \<exists>d\<in>set ds. hasher (item d) = hasher x)"


section \<open>Two array generators\<close>

text \<open>The runtime after \<open>new Generator(A)\<close> and \<open>new Generator(B)\<close> in a fresh program:
  the generators are the objects 0 and 2.\<close>

definition two_arrays :: "'a val list \<Rightarrow> 'a val list \<Rightarrow> ('a, 'k) state" where
  "two_arrays A B = snd (Generator (Array B) (snd (Generator (Array A) init)))"

text \<open>The same on a host whose \<open>Object.prototype\<close> defines the keys in \<open>P\<close>.\<close>

definition two_arrays_in :: "('k \<Rightarrow> bool) \<Rightarrow> 'a val list \<Rightarrow> 'a val list \<Rightarrow> ('a, 'k) state" where
  "two_arrays_in P A B =
     snd (Generator (Array B) (snd (Generator (Array A) (init\<lparr>proto_members := P\<rparr>))))"

text \<open>The property names that ECMAScript gives \<open>Object.prototype\<close> on every host; all of
  them are functions.\<close>

definition object_prototype :: "string \<Rightarrow> bool" where
  "object_prototype k \<longleftrightarrow>
     k \<in> set [''constructor'', ''hasOwnProperty'', ''isPrototypeOf'', ''propertyIsEnumerable'',
              ''toLocaleString'', ''toString'', ''valueOf'']"

text \<open>An object \<open>{id: k}\<close> created for the stream \<open>a\<close> is \<open>Prim (a, k)\<close>; the hasher
  \<open>function(x) { return x.id; }\<close>, whose result is \<open>undefined\<close> on anything else:\<close>

fun key_of :: "(nat \<times> string) val \<Rightarrow> string" where
  "key_of (Prim (a, k)) = k"
| "key_of v = ''undefined''"


section \<open>The event loop, step by step\<close>

lemma run_halt: "jobs s = [] \<Longrightarrow> timers s = [] \<Longrightarrow> run s = Some s"
  by (subst run.simps) simp

lemma run_timer:
  "jobs s = [] \<Longrightarrow> timers s = t # ts \<Longrightarrow> run s = run (run_task t (s\<lparr>timers := ts\<rparr>))"
  by (subst run.simps) (simp add: step_def)

lemma run_job_step: "jobs s = j # js \<Longrightarrow> run s = run (run_job j (s\<lparr>jobs := js\<rparr>))"
  by (subst run.simps) (simp add: step_def)

lemmas reg_defs = observe_all_def emit_g_def done_g_def catch_g_def new_generator_def

section \<open>A generator under observation\<close>

lemma run_task_observed:
  "observed g n s \<Longrightarrow> task_on g t \<Longrightarrow> run_task t s = s\<lparr>log := log s @ task_obs n t\<rparr>"
  by (cases t) (simp_all add: observed_def)

lemma run_observed:
  "observed g n s \<Longrightarrow> jobs s = [] \<Longrightarrow> list_all (task_on g) ts \<Longrightarrow> timers s = ts @ rest \<Longrightarrow>
   run s = run (s\<lparr>timers := rest, log := log s @ concat (map (task_obs n) ts)\<rparr>)"
proof (induction ts arbitrary: s)
  case Nil
  then have "s\<lparr>timers := rest\<rparr> = s" by (cases s) simp
  then show ?case by simp
next
  case (Cons t ts)
  let ?s1 = "run_task t (s\<lparr>timers := ts @ rest\<rparr>)"
  have o: "observed g n (s\<lparr>timers := ts @ rest\<rparr>)"
    using Cons.prems(1) by (simp add: observed_def)
  have s1: "?s1 = s\<lparr>timers := ts @ rest, log := log s @ task_obs n t\<rparr>"
    using run_task_observed[OF o, of t] Cons.prems(3) by simp
  have "run s = run ?s1" using Cons.prems by (simp add: run_timer)
  also have "\<dots> = run (?s1\<lparr>timers := rest, log := log ?s1 @ concat (map (task_obs n) ts)\<rparr>)"
    apply (rule Cons.IH)
    using Cons.prems by (simp_all add: s1 observed_def)
  finally show ?case by (simp add: s1)
qed

lemma run_all_observed:
  assumes "observed g n s" "jobs s = []" "list_all (task_on g) (timers s)"
  shows "run s = Some (s\<lparr>timers := [], log := log s @ concat (map (task_obs n) (timers s))\<rparr>)"
proof -
  have "run s = run (s\<lparr>timers := [], log := log s @ concat (map (task_obs n) (timers s))\<rparr>)"
    by (rule run_observed[OF assms]) simp
  also have "\<dots> = Some (s\<lparr>timers := [], log := log s @ concat (map (task_obs n) (timers s))\<rparr>)"
    by (rule run_halt) (simp_all add: assms)
  finally show ?thesis .
qed

lemma observed_result:
  assumes "observed g n s" "jobs s = []" "list_all (task_on g) (timers s)"
    and "log s = L" and "concat (map (task_obs n) (timers s)) = E"
  shows "\<exists>s'. run s = Some s' \<and> log s' = L @ E"
  using run_all_observed[OF assms(1-3)] assms(4,5) by simp

section \<open>What the constructor schedules\<close>

lemma array_loop_eq:
  "array_loop g c xs s = s\<lparr>timers := timers s @ map (\<lambda>x. DispatchEmit g x (SetFlag c)) xs\<rparr>"
  by (induction xs arbitrary: s) (simp_all add: emit_h_def)

lemma iterator_loop_eq:
  "\<not> flags s c \<Longrightarrow>
   iterator_loop g c xs s = s\<lparr>timers := timers s @ map (\<lambda>x. DispatchEmit g x (SetFlag c)) xs\<rparr>"
  by (induction xs arbitrary: s) (simp_all add: emit_h_def)

lemma run_calls_eq:
  "\<not> list_ex is_throw cs \<Longrightarrow>
   run_calls g cs s = (None, s\<lparr>timers := timers s @ concat (map (call_task g) cs)\<rparr>)"
proof (induction cs arbitrary: s)
  case Nil
  show ?case by simp
next
  case (Cons c cs)
  then show ?case by (cases c) (simp_all add: emit_h_def done_h_def reject_h_def)
qed

lemma call_task_on: "list_all (task_on g) (concat (map (call_task g) cs))"
proof (induction cs)
  case Nil
  show ?case by simp
next
  case (Cons c cs)
  then show ?case by (cases c) simp_all
qed

lemma call_task_obs:
  "concat (map (task_obs n) (concat (map (call_task g) cs))) = concat (map (call_obs n) cs)"
proof (induction cs)
  case Nil
  show ?case by simp
next
  case (Cons c cs)
  then show ?case by (cases c) simp_all
qed

lemma item_task_obs:
  "concat (map (task_obs n \<circ> (\<lambda>x. DispatchEmit g x h)) xs) = map (SawItem n) xs"
  by (induction xs) simp_all



section \<open>Listeners registered before control is yielded\<close>

lemma current_observed:
  assumes q: "jobs s = []" "timers s = []" and r: "ready s cb"
  shows "fst (Generator cb s) = Inr (fresh s) \<and>
     (\<exists>s'. run (observe_all (fresh s) n (snd (Generator cb s))) = Some s' \<and>
        log s' = log s @ expected n s cb)"
proof (cases cb)
  case (Array xs)
  let ?g = "fresh s"
  let ?s2 = "observe_all ?g n (snd (Generator cb s))"
  have f: "fst (Generator cb s) = Inr ?g"
    by (simp add: Array Generator_def new_generator_def alloc_def)
  have o: "observed ?g n ?s2"
    by (simp add: Array observed_def reg_defs Generator_def alloc_def array_loop_eq done_h_def)
  have j: "jobs ?s2 = []" using q
    by (simp add: Array reg_defs Generator_def alloc_def array_loop_eq done_h_def)
  have t: "timers ?s2 = map (\<lambda>x. DispatchEmit ?g x (SetFlag (Suc ?g))) xs @ [DispatchDone ?g]"
    using q by (simp add: Array reg_defs Generator_def alloc_def array_loop_eq done_h_def)
  have l: "log ?s2 = log s"
    by (simp add: Array reg_defs Generator_def alloc_def array_loop_eq done_h_def)
  have a: "list_all (task_on ?g) (timers ?s2)" unfolding t by (simp add: list_all_iff)
  have e: "expected n s cb = map (SawItem n) xs @ [SawDone n]" by (simp add: Array)
  have c: "concat (map (task_obs n) (timers ?s2)) = expected n s cb"
    unfolding t e by (simp add: item_task_obs)
  show ?thesis using f observed_result[OF o j a l c] by blast
next
  case (Iterator xs)
  let ?g = "fresh s"
  let ?s2 = "observe_all ?g n (snd (Generator cb s))"
  have f: "fst (Generator cb s) = Inr ?g"
    by (simp add: Iterator Generator_def new_generator_def alloc_def)
  have o: "observed ?g n ?s2"
    by (simp add: Iterator observed_def reg_defs Generator_def alloc_def iterator_loop_eq done_h_def)
  have j: "jobs ?s2 = []" using q
    by (simp add: Iterator reg_defs Generator_def alloc_def iterator_loop_eq done_h_def)
  have t: "timers ?s2 = map (\<lambda>x. DispatchEmit ?g x (SetFlag (Suc ?g))) xs @ [DispatchDone ?g]"
    using q by (simp add: Iterator reg_defs Generator_def alloc_def iterator_loop_eq done_h_def)
  have l: "log ?s2 = log s"
    by (simp add: Iterator reg_defs Generator_def alloc_def iterator_loop_eq done_h_def)
  have a: "list_all (task_on ?g) (timers ?s2)" unfolding t by (simp add: list_all_iff)
  have e: "expected n s cb = map (SawItem n) xs @ [SawDone n]" by (simp add: Iterator)
  have c: "concat (map (task_obs n) (timers ?s2)) = expected n s cb"
    unfolding t e by (simp add: item_task_obs)
  show ?thesis using f observed_result[OF o j a l c] by blast
next
  case (Callback cs)
  let ?g = "fresh s"
  let ?s2 = "observe_all ?g n (snd (Generator cb s))"
  have nt: "\<not> list_ex is_throw cs" using r Callback by simp
  have f: "fst (Generator cb s) = Inr ?g"
    by (simp add: Callback Generator_def new_generator_def run_calls_eq[OF nt])
  have o: "observed ?g n ?s2"
    by (simp add: Callback observed_def reg_defs Generator_def run_calls_eq[OF nt])
  have j: "jobs ?s2 = []" using q
    by (simp add: Callback reg_defs Generator_def run_calls_eq[OF nt])
  have t: "timers ?s2 = concat (map (call_task ?g) cs)"
    using q by (simp add: Callback reg_defs Generator_def run_calls_eq[OF nt])
  have l: "log ?s2 = log s"
    by (simp add: Callback reg_defs Generator_def run_calls_eq[OF nt])
  have a: "list_all (task_on ?g) (timers ?s2)" unfolding t by (rule call_task_on)
  have e: "expected n s cb = concat (map (call_obs n) cs)" by (simp add: Callback)
  have c: "concat (map (task_obs n) (timers ?s2)) = expected n s cb"
    unfolding t e by (rule call_task_obs)
  show ?thesis using f observed_result[OF o j a l c] by blast
next
  case (PromiseSrc p)
  let ?g = "fresh s"
  let ?s2 = "observe_all ?g n (snd (Generator cb s))"
  have p: "p < fresh s" using r PromiseSrc by simp
  have f: "fst (Generator cb s) = Inr ?g"
    by (simp add: PromiseSrc Generator_def new_generator_def)
  show ?thesis
  proof (cases "pstate (proms s p)")
    case Pending
    have j: "jobs ?s2 = []" using q p Pending
      by (simp add: PromiseSrc reg_defs Generator_def then_p_def new_promise_def)
    have t: "timers ?s2 = []" using q p Pending
      by (simp add: PromiseSrc reg_defs Generator_def then_p_def new_promise_def)
    have l: "log ?s2 = log s" using q p Pending
      by (simp add: PromiseSrc reg_defs Generator_def then_p_def new_promise_def)
    have "run ?s2 = Some ?s2" by (rule run_halt[OF j t])
    then show ?thesis using f l by (simp add: PromiseSrc Pending)
  next
    case (Rejected e)
    then show ?thesis using r PromiseSrc by simp
  next
    case (Fulfilled v)
    note v = this
    have j: "jobs ?s2 = [Fulfil (FromPromise ?g) (Suc ?g) v]" using q p v
      by (simp add: PromiseSrc reg_defs Generator_def then_p_def new_promise_def)
    let ?s3 = "run_job (Fulfil (FromPromise ?g) (Suc ?g) v) (?s2\<lparr>jobs := []\<rparr>)"
    have o: "observed ?g n ?s3" using q p v
      by (simp add: PromiseSrc observed_def reg_defs Generator_def then_p_def new_promise_def
          resolve_p_def done_h_def emit_h_def)
    have j3: "jobs ?s3 = []" using q p v
      by (simp add: PromiseSrc reg_defs Generator_def then_p_def new_promise_def
          resolve_p_def done_h_def emit_h_def)
    have t3: "timers ?s3 = [DispatchEmit ?g v Noop, DispatchDone ?g]" using q p v
      by (simp add: PromiseSrc reg_defs Generator_def then_p_def new_promise_def
          resolve_p_def done_h_def emit_h_def)
    have l3: "log ?s3 = log s" using q p v
      by (simp add: PromiseSrc reg_defs Generator_def then_p_def new_promise_def
          resolve_p_def done_h_def emit_h_def)
    have a: "list_all (task_on ?g) (timers ?s3)" unfolding t3 by simp
    have e: "expected n s cb = [SawItem n v, SawDone n]" by (simp add: PromiseSrc v)
    have c: "concat (map (task_obs n) (timers ?s3)) = expected n s cb"
      unfolding t3 e by simp
    have "run ?s2 = run ?s3" by (rule run_job_step[OF j])
    then show ?thesis using f observed_result[OF o j3 a l3 c] by simp
  qed
qed


lemma legacy_items_observed:
  "observed g n s \<Longrightarrow> legacy_items g xs s = (False, s\<lparr>log := log s @ map (SawItem n) xs\<rparr>)"
proof (induction xs arbitrary: s)
  case Nil
  show ?case by simp
next
  case (Cons x xs)
  have o: "observed g n (s\<lparr>log := log s @ [SawItem n x]\<rparr>)"
    using Cons.prems by (simp add: observed_def)
  show ?case using Cons.prems Cons.IH[OF o] by (simp add: observed_def)
qed

lemma legacy_calls_observed:
  "observed g n s \<Longrightarrow>
   legacy_calls g cs s =
     s\<lparr>log := log s @ concat (map (call_obs n) (takeWhile (\<lambda>c. \<not> is_throw c) cs))\<rparr>"
proof (induction cs arbitrary: s)
  case Nil
  show ?case by simp
next
  case (Cons c cs)
  have o: "observed g n (s\<lparr>log := log s @ call_obs n c\<rparr>)"
    using Cons.prems by (simp add: observed_def)
  show ?case using Cons.prems Cons.IH[OF o]
    by (cases c) (simp_all add: observed_def)
qed

lemma legacy_start_observed:
  "observed g n s \<Longrightarrow> legacy_start g cb s = s\<lparr>log := log s @ expected_legacy n cb\<rparr>"
proof (cases cb)
  case (Array xs)
  assume o: "observed g n s"
  show ?thesis using o by (simp add: Array legacy_items_observed[OF o] observed_def)
next
  case (Iterator xs)
  assume o: "observed g n s"
  show ?thesis using o by (simp add: Iterator legacy_items_observed[OF o] observed_def)
next
  case (PromiseSrc p)
  show ?thesis by (simp add: PromiseSrc)
next
  case (Callback cs)
  assume o: "observed g n s"
  show ?thesis by (simp add: Callback legacy_calls_observed[OF o])
qed

lemma legacy_observed:
  assumes "jobs s = []" "timers s = []"
  shows "fst (Generator_legacy cb s) = fresh s \<and>
     timers (snd (Generator_legacy cb s)) = [LegacyStart (fresh s) cb] \<and>
     (\<exists>s'. run (observe_all (fresh s) n (snd (Generator_legacy cb s))) = Some s' \<and>
        log s' = log s @ expected_legacy n cb)"
proof -
  let ?g = "fresh s"
  let ?s2 = "observe_all ?g n (snd (Generator_legacy cb s))"
  let ?s3 = "?s2\<lparr>timers := []\<rparr>"
  have o: "observed ?g n ?s3"
    by (simp add: observed_def reg_defs Generator_legacy_def)
  have j: "jobs ?s2 = []" using assms by (simp add: reg_defs Generator_legacy_def)
  have t: "timers ?s2 = [LegacyStart ?g cb]"
    using assms by (simp add: reg_defs Generator_legacy_def)
  have l: "log ?s3 = log s" by (simp add: reg_defs Generator_legacy_def)
  have "run ?s2 = run (run_task (LegacyStart ?g cb) ?s3)"
    by (rule run_timer[OF j t])
  also have "run_task (LegacyStart ?g cb) ?s3 = ?s3\<lparr>log := log s @ expected_legacy n cb\<rparr>"
    by (simp add: legacy_start_observed[OF o] l)
  also have "run \<dots> = Some (?s3\<lparr>log := log s @ expected_legacy n cb\<rparr>)"
    by (rule run_halt) (simp_all add: j)
  finally show ?thesis using assms by (simp add: Generator_legacy_def new_generator_def)
qed

section \<open>The constructor on an array\<close>

text \<open>
  Claim C1. For every finite array \<open>S\<close> handed to the constructor in a quiescent runtime,
  a user who registers listeners before yielding control sees the elements of \<open>S\<close> in
  their order and then the completion, once, with no item after it. This holds for the
  current constructor and for the legacy one.
\<close>

theorem array_emitted_in_order:
  assumes "jobs s = []" "timers s = []"
  shows "fst (Generator (Array S) s) = Inr (fresh s) \<and>
     (\<exists>s'. run (observe_all (fresh s) n (snd (Generator (Array S) s))) = Some s' \<and>
        log s' = log s @ map (SawItem n) S @ [SawDone n]) \<and>
     (\<exists>s'. run (observe_all (fresh s) n (snd (Generator_legacy (Array S) s))) = Some s' \<and>
        log s' = log s @ map (SawItem n) S @ [SawDone n])"
  using current_observed[OF assms, of "Array S" n] legacy_observed[OF assms, of "Array S" n]
  by simp

theorem array_emitted_in_order_witness:
  "jobs (init :: (nat, unit) state) = [] \<and> timers (init :: (nat, unit) state) = [] \<and>
   (\<exists>s'. run (observe_all 0 7 (snd (Generator (Array [Prim 1, Prim 2, Prim 3])
             (init :: (nat, unit) state)))) = Some s' \<and>
        log s' = [SawItem 7 (Prim 1), SawItem 7 (Prim 2), SawItem 7 (Prim 3), SawDone 7])"
  using array_emitted_in_order[of "init :: (nat, unit) state" "[Prim 1, Prim 2, Prim 3]" 7]
  by (simp add: init_def)

section \<open>When the producer runs\<close>




section \<open>Fault and completion\<close>

text \<open>
  Claim C4, as stated, fails: nothing keeps a stream from firing both terminal events. A
  producer that calls \<open>reject\<close> and then \<open>done\<close> reaches the fault listener and then the
  completion listener.
\<close>

theorem fault_and_completion_both_fire:
  "map_option log
     (run (observe_all 0 7 (snd (Generator (Callback [CallReject (Prim 0), CallDone])
        (init :: (nat, unit) state))))) =
   Some [SawFault 7 (Prim 0), SawDone 7]"
  by code_simp

text \<open>
  Claim C4, amended. The stream keeps no record of having ended. Every call of the fault
  handle reaches the fault listeners and no other listener, every call of the completion
  handle reaches the completion listeners and no other listener, once for each call and in
  the order of the calls; so a producer that makes one terminal call gives one terminal
  event.
\<close>

theorem terminal_calls_reach_their_own_listeners:
  assumes "jobs s = []" "timers s = []" "\<not> list_ex is_throw cs"
  shows "\<exists>s'. run (observe_all (fresh s) n (snd (Generator (Callback cs) s))) = Some s' \<and>
        log s' = log s @ concat (map (call_obs n) cs)"
  using current_observed[OF assms(1,2), of "Callback cs" n] assms(3) by simp

theorem terminal_calls_reach_their_own_listeners_witness:
  "jobs (init :: (nat, unit) state) = [] \<and> timers (init :: (nat, unit) state) = [] \<and>
   \<not> list_ex is_throw [CallEmit (Prim (1::nat)), CallReject (Prim 2)] \<and>
   (\<exists>s'. run (observe_all 0 7 (snd (Generator (Callback [CallEmit (Prim 1), CallReject (Prim 2)])
             (init :: (nat, unit) state)))) = Some s' \<and>
        log s' = [SawItem 7 (Prim 1), SawFault 7 (Prim 2)])"
  using terminal_calls_reach_their_own_listeners[of "init :: (nat, unit) state"
      "[CallEmit (Prim 1), CallReject (Prim 2)]" 7]
  by (simp add: init_def)

section \<open>The cancellation hook of the array adapter\<close>

text \<open>
  Claim C9 does not hold of the code. The array branch hands every listener a hook that
  sets \<open>cancelled\<close>, but its loop never reads the variable, and all its timers are set
  before the first listener runs. On \<open>[1, 2, 3]\<close>, a listener that invokes the hook on
  every item still receives all three items; the flag (stored at address 1) ends up set.
\<close>

theorem array_cancel_hook_has_no_effect:
  "map_option (\<lambda>s. (log s, flags s 1))
     (run (done_g 0 (ObserveDone 7) (emit_g 0 (ObserveItemCancel 7)
        (snd (Generator (Array [Prim 1, Prim 2, Prim 3]) (init :: (nat, unit) state)))))) =
   Some ([SawItem 7 (Prim 1), SawItem 7 (Prim 2), SawItem 7 (Prim 3), SawDone 7], True)"
  by code_simp

section \<open>The promise of \<open>then\<close>\<close>

lemma run_then_items:
  "then_ready g a f p s \<Longrightarrow> timers s = map (\<lambda>x. DispatchEmit g x h) xs @ rest \<Longrightarrow>
   run s = run (s\<lparr>timers := rest, arrs := (arrs s)(a := arrs s a @ xs)\<rparr>)"
proof (induction xs arbitrary: s)
  case Nil
  then have "s\<lparr>timers := rest, arrs := (arrs s)(a := arrs s a)\<rparr> = s" by (cases s) simp
  then show ?case by simp
next
  case (Cons x xs)
  let ?s1 = "s\<lparr>timers := map (\<lambda>x. DispatchEmit g x h) xs @ rest, arrs := (arrs s)(a := arrs s a @ [x])\<rparr>"
  have "run s = run (run_task (DispatchEmit g x h) (s\<lparr>timers := map (\<lambda>x. DispatchEmit g x h) xs @ rest\<rparr>))"
    using Cons.prems by (simp add: run_timer then_ready_def)
  also have "\<dots> = run ?s1" using Cons.prems by (simp add: then_ready_def)
  also have "\<dots> = run (?s1\<lparr>timers := rest, arrs := (arrs ?s1)(a := arrs ?s1 a @ xs)\<rparr>)"
    apply (rule Cons.IH)
    using Cons.prems by (simp_all add: then_ready_def)
  also have "?s1\<lparr>timers := rest, arrs := (arrs ?s1)(a := arrs ?s1 a @ xs)\<rparr> =
      s\<lparr>timers := rest, arrs := (arrs s)(a := arrs s a @ x # xs)\<rparr>"
    by simp
  finally show ?case .
qed

lemma then_settles:
  assumes "then_ready g a f p s"
    and "timers s = map (\<lambda>x. DispatchEmit g x h) xs @ [DispatchDone g]"
  shows "\<exists>s'. run s = Some s' \<and>
     pstate (proms s' p) =
       (case f (arrs s a @ xs) of Return r \<Rightarrow> Fulfilled r | Throw e \<Rightarrow> Rejected e)"
proof -
  let ?s1 = "s\<lparr>timers := [DispatchDone g], arrs := (arrs s)(a := arrs s a @ xs)\<rparr>"
  let ?s2 = "run_task (DispatchDone g) (?s1\<lparr>timers := []\<rparr>)"
  have "run s = run ?s1" by (rule run_then_items[OF assms])
  also have "\<dots> = run ?s2" using assms(1) by (intro run_timer) (simp_all add: then_ready_def)
  also have "\<dots> = Some ?s2" using assms(1)
    by (intro run_halt) (simp_all add: then_ready_def resolve_p_def reject_p_def split: result.splits)
  finally have "run s = Some ?s2" .
  moreover have "pstate (proms ?s2 p) =
       (case f (arrs s a @ xs) of Return r \<Rightarrow> Fulfilled r | Throw e \<Rightarrow> Rejected e)"
    using assms(1) by (simp add: then_ready_def resolve_p_def reject_p_def split: result.splits)
  ultimately show ?thesis by blast
qed

lemma then_on_array:
  assumes "jobs s = []" "timers s = []"
  shows "\<exists>s'. run (snd (then_g (fresh s) (UserFn f) (snd (Generator (Array xs) s)))) = Some s' \<and>
     pstate (proms s' (Suc (Suc (fresh s)))) =
       (case f xs of Return r \<Rightarrow> Fulfilled r | Throw e \<Rightarrow> Rejected e)"
proof -
  let ?g = "fresh s"
  let ?s2 = "snd (then_g ?g (UserFn f) (snd (Generator (Array xs) s)))"
  have r: "then_ready ?g (Suc (Suc (Suc ?g))) f (Suc (Suc ?g)) ?s2" using assms
    by (simp add: then_ready_def then_g_def new_promise_def alloc_def emit_g_def done_g_def
        Generator_def new_generator_def array_loop_eq done_h_def)
  have t: "timers ?s2 = map (\<lambda>x. DispatchEmit ?g x (SetFlag (Suc ?g))) xs @ [DispatchDone ?g]"
    using assms
    by (simp add: then_g_def new_promise_def alloc_def emit_g_def done_g_def
        Generator_def new_generator_def array_loop_eq done_h_def)
  have a: "arrs ?s2 (Suc (Suc (Suc ?g))) = []"
    by (simp add: then_g_def new_promise_def alloc_def emit_g_def done_g_def
        Generator_def new_generator_def array_loop_eq done_h_def)
  show ?thesis using then_settles[OF r t] a by simp
qed

text \<open>
  Claim C3 does not hold of the code where the stream faults. \<open>then\<close> registers an item
  listener and a completion listener and no fault listener, so the promise of a stream
  that faults is never settled; \<open>done()\<close> without a callback, on the same stream, is
  rejected with the error. The rest of the claim holds (lemmas \<open>then_settles\<close> and
  \<open>then_on_array\<close>): the items arrive in order, and the promise is fulfilled with what
  the function returns and rejected with what it throws.
\<close>

theorem then_promise_ignores_fault:
  "map_option (\<lambda>s. pstate (proms s 1))
     (run (snd (then_g 0 (UserFn f)
        (snd (Generator (Callback [CallEmit (Prim 1), CallReject (Prim 2)])
               (init :: (nat, unit) state)))))) = Some Pending \<and>
   map_option (\<lambda>s. pstate (proms s 1))
     (run (snd (done_promise 0
        (snd (Generator (Callback [CallEmit (Prim 1), CallReject (Prim 2)])
               (init :: (nat, unit) state)))))) = Some (Rejected (Prim 2))"
  by code_simp

section \<open>A promise as producer\<close>

lemma fulfilled_promise_source:
  "map_option log
     (run (observe_all 1 7 (snd (Generator (PromiseSrc 0)
        (snd (promise_resolve (Prim 123) (init :: (nat, unit) state))))))) =
   Some [SawItem 7 (Prim 123), SawDone 7]"
  by code_simp

text \<open>
  Claim C5 does not hold of the code where the promise is rejected. The promise branch
  calls \<open>cb.then\<close> with a fulfilment handler only, so the rejection of
  \<open>Promise.reject(e)\<close> reaches no listener of the stream: the observers of all three kinds
  record nothing. On a fulfilled promise the claim holds (lemmas \<open>current_observed\<close> and
  \<open>fulfilled_promise_source\<close>).
\<close>

theorem rejected_promise_source_is_dropped:
  "map_option log
     (run (observe_all 1 7 (snd (Generator (PromiseSrc 0)
        (snd (promise_reject e (init :: (nat, unit) state))))))) = Some []"
  by code_simp

lemma resolve_settled: "pstate (proms s p) \<noteq> Pending \<Longrightarrow> resolve_p p v s = s"
  by (simp add: resolve_p_def split: pstate.splits)

lemma resolve_quiet:
  "reactions (proms s p) = [] \<Longrightarrow>
   \<exists>P. resolve_p p v s = s\<lparr>proms := P\<rparr> \<and> reactions (P p) = [] \<and> (\<forall>q. q \<noteq> p \<longrightarrow> P q = proms s q)"
proof (cases "pstate (proms s p)")
  case Pending
  assume "reactions (proms s p) = []"
  then have "resolve_p p v s = s\<lparr>proms := (proms s)(p := \<lparr>pstate = Fulfilled v, reactions = []\<rparr>)\<rparr>"
    using Pending by (cases s) (simp add: resolve_p_def)
  then show ?thesis by (intro exI[of _ "(proms s)(p := \<lparr>pstate = Fulfilled v, reactions = []\<rparr>)"]) simp
next
  case (Fulfilled x)
  assume r: "reactions (proms s p) = []"
  have "resolve_p p v s = s\<lparr>proms := proms s\<rparr>" using Fulfilled by (simp add: resolve_p_def)
  then show ?thesis using r by (intro exI[of _ "proms s"]) simp
next
  case (Rejected x)
  assume r: "reactions (proms s p) = []"
  have "resolve_p p v s = s\<lparr>proms := proms s\<rparr>" using Rejected by (simp add: resolve_p_def)
  then show ?thesis using r by (intro exI[of _ "proms s"]) simp
qed

lemma barrier_resolve_done:
  "barrier pid qid pall qf R gs T s \<Longrightarrow> i < length gs \<Longrightarrow> gs ! i \<notin> T \<Longrightarrow>
   resolve_p (pid i) v s = s"
  by (rule resolve_settled) (simp add: barrier_def)

lemma barrier_resolve_pending:
  "barrier pid qid pall qf R gs T s \<Longrightarrow> i < length gs \<Longrightarrow> gs ! i \<in> T \<Longrightarrow>
   resolve_p (pid i) v s =
     s\<lparr>proms := (proms s)(pid i := \<lparr>pstate = Fulfilled v, reactions = []\<rparr>),
       jobs := jobs s @ [Fulfil (AllElement pall i) (qid i) v]\<rparr>"
  by (simp add: barrier_def resolve_p_def)

lemma barrier_ids:
  assumes "barrier pid qid pall qf R gs T s" "i < length gs"
  shows "pid i \<noteq> pall" "pid i \<noteq> qf" "qid i \<noteq> pall" "qid i \<noteq> qf" "pall \<noteq> qf"
    and "j < length gs \<Longrightarrow> pid i \<noteq> qid j"
    and "j < length gs \<Longrightarrow> pid j \<noteq> qid i"
    and "j < length gs \<Longrightarrow> pid i = pid j \<Longrightarrow> i = j"
proof -
  from assms(1) have D: "\<forall>i<length gs. \<forall>j<length gs.
        pid i \<noteq> qid j \<and> pid i \<noteq> pall \<and> pid i \<noteq> qf \<and> qid i \<noteq> pall \<and> qid i \<noteq> qf \<and>
        (pid i = pid j \<longrightarrow> i = j)" and E: "pall \<noteq> qf"
    unfolding barrier_def by blast+
  from D assms(2) have F: "pid i \<noteq> qid i \<and> pid i \<noteq> pall \<and> pid i \<noteq> qf \<and> qid i \<noteq> pall \<and> qid i \<noteq> qf"
    by blast
  show "pid i \<noteq> pall" "pid i \<noteq> qf" "qid i \<noteq> pall" "qid i \<noteq> qf" using F by blast+
  show "pall \<noteq> qf" by (rule E)
  show "j < length gs \<Longrightarrow> pid i \<noteq> qid j" using D assms(2) by blast
  show "j < length gs \<Longrightarrow> pid j \<noteq> qid i" using D assms(2) by blast
  show "j < length gs \<Longrightarrow> pid i = pid j \<Longrightarrow> i = j" using D assms(2) by blast
qed

lemma barrier_others:
  assumes b: "barrier pid qid pall qf R gs T s" and i: "i < length gs" "gs ! i \<in> T"
    and P: "\<forall>q. q \<noteq> pid i \<and> q \<noteq> qid i \<and> q \<noteq> pall \<longrightarrow> proms s' q = proms s q"
    and Pi: "pstate (proms s' (pid i)) \<noteq> Pending"
    and Pq: "reactions (proms s' (qid i)) = []"
    and Pa: "T \<noteq> {gs ! i} \<longrightarrow> proms s' pall = proms s pall"
    and r: "remaining s' pall = card (T - {gs ! i})"
  shows "barrier pid qid pall qf R gs (T - {gs ! i}) s'"
proof -
  note d = barrier_ids[OF b]
  have dist: "distinct gs" and sub: "T \<subseteq> set gs" using b unfolding barrier_def by blast+
  have ids: "\<forall>i<length gs. \<forall>j<length gs.
        pid i \<noteq> qid j \<and> pid i \<noteq> pall \<and> pid i \<noteq> qf \<and> qid i \<noteq> pall \<and> qid i \<noteq> qf \<and>
        (pid i = pid j \<longrightarrow> i = j)" using b unfolding barrier_def by blast
  have old: "\<forall>j<length gs.
        if gs ! j \<in> T
        then proms s (pid j) = \<lparr>pstate = Pending, reactions = [(AllElement pall j, qid j)]\<rparr>
        else pstate (proms s (pid j)) \<noteq> Pending" using b unfolding barrier_def by blast
  have oldq: "\<forall>j<length gs. reactions (proms s (qid j)) = []"
    and oldf: "reactions (proms s qf) = []"
    and olda: "T \<noteq> {} \<longrightarrow> proms s pall = \<lparr>pstate = Pending, reactions = [(R, qf)]\<rparr>"
    using b unfolding barrier_def by blast+
  have c1: "\<forall>j<length gs.
        if gs ! j \<in> T - {gs ! i}
        then proms s' (pid j) = \<lparr>pstate = Pending, reactions = [(AllElement pall j, qid j)]\<rparr>
        else pstate (proms s' (pid j)) \<noteq> Pending"
  proof (intro allI impI)
    fix j assume j: "j < length gs"
    show "if gs ! j \<in> T - {gs ! i}
        then proms s' (pid j) = \<lparr>pstate = Pending, reactions = [(AllElement pall j, qid j)]\<rparr>
        else pstate (proms s' (pid j)) \<noteq> Pending"
    proof (cases "j = i")
      case True
      then show ?thesis using Pi by simp
    next
      case False
      then have ne: "gs ! j \<noteq> gs ! i" using dist j i(1) by (simp add: nth_eq_iff_index_eq)
      have "pid j \<noteq> pid i" using d(8)[OF j i(1)] False by blast
      moreover have "pid j \<noteq> qid i" using d(6)[OF j i(1)] .
      moreover have "pid j \<noteq> pall" using d(1)[OF j] .
      ultimately have "proms s' (pid j) = proms s (pid j)" using P by blast
      then show ?thesis using old j ne by simp
    qed
  qed
  have c2: "\<forall>j<length gs. reactions (proms s' (qid j)) = []"
  proof (intro allI impI)
    fix j assume j: "j < length gs"
    show "reactions (proms s' (qid j)) = []"
    proof (cases "qid j = qid i")
      case True
      then show ?thesis using Pq by simp
    next
      case False
      moreover have "qid j \<noteq> pid i" using d(6)[OF i(1) j] by simp
      moreover have "qid j \<noteq> pall" using d(3)[OF j] .
      ultimately have "proms s' (qid j) = proms s (qid j)" using P by blast
      then show ?thesis using oldq j by simp
    qed
  qed
  have "qf \<noteq> pid i" "qf \<noteq> qid i" "qf \<noteq> pall" using d(2,4,5)[OF i(1)] by blast+
  then have "proms s' qf = proms s qf" using P by blast
  then have c3: "reactions (proms s' qf) = []" using oldf by simp
  have c4: "T - {gs ! i} \<noteq> {} \<longrightarrow> proms s' pall = \<lparr>pstate = Pending, reactions = [(R, qf)]\<rparr>"
  proof
    assume "T - {gs ! i} \<noteq> {}"
    then have "T \<noteq> {gs ! i}" "T \<noteq> {}" by blast+
    then show "proms s' pall = \<lparr>pstate = Pending, reactions = [(R, qf)]\<rparr>"
      using Pa olda by simp
  qed
  have sub': "T - {gs ! i} \<subseteq> set gs" using sub by blast
  show ?thesis unfolding barrier_def
    using dist sub' d(5)[OF i(1)] ids c1 c2 c3 r c4 by blast
qed

lemma barrier_job:
  assumes b: "barrier pid qid pall qf R gs T s" and i: "i < length gs" "gs ! i \<in> T"
    and p1: "proms s1 = (proms s)(pid i := \<lparr>pstate = Fulfilled v, reactions = []\<rparr>)"
    and r1: "remaining s1 = remaining s"
  shows "\<exists>P r av V.
     run_job (Fulfil (AllElement pall i) (qid i) v) s1 =
       s1\<lparr>proms := P, remaining := r, allvalues := av,
           jobs := jobs s1 @ (if T = {gs ! i} then [Fulfil R qf V] else [])\<rparr> \<and>
     barrier pid qid pall qf R gs (T - {gs ! i})
       (s1\<lparr>proms := P, remaining := r, allvalues := av,
           jobs := jobs s1 @ (if T = {gs ! i} then [Fulfil R qf V] else [])\<rparr>) \<and>
     (\<forall>q. q \<noteq> pall \<and> q \<noteq> qid i \<longrightarrow> P q = proms s1 q)"
proof -
  let ?g = "gs ! i"
  have fin: "finite T" using b unfolding barrier_def by (blast intro: finite_subset)
  have cardT: "card T - 1 = card (T - {?g})" using i fin by simp
  have f2: "finite (T - {?g})" using fin by simp
  have zero: "card (T - {?g}) = 0 \<longleftrightarrow> T = {?g}"
  proof
    assume "card (T - {?g}) = 0"
    then have "T - {?g} = {}" using f2 by simp
    then show "T = {?g}" using i(2) by blast
  next
    assume "T = {?g}"
    then show "card (T - {?g}) = 0" by simp
  qed
  have ne: "T \<noteq> {}" using i by blast
  have pall: "proms s pall = \<lparr>pstate = Pending, reactions = [(R, qf)]\<rparr>"
    using b ne unfolding barrier_def by blast
  note d1 = barrier_ids[OF b i(1)]
  have d2: "pid i \<noteq> qid i" using d1(6)[OF i(1)] .
  have rq: "reactions (proms s (qid i)) = []" using b i(1) unfolding barrier_def by blast
  have rem: "remaining s pall = card T" using b unfolding barrier_def by blast
  let ?av = "(allvalues s1)(pall := (allvalues s1 pall)[i := v])"
  let ?r = "(remaining s1)(pall := card (T - {?g}))"
  let ?sa = "s1\<lparr>allvalues := ?av, remaining := ?r\<rparr>"
  have "Suc (card (T - {?g})) = card T" by (rule card_Suc_Diff1[OF fin i(2)])
  then have rs: "remaining s1 pall = Suc (card (T - {?g}))"
    using r1 rem by simp
  show ?thesis
  proof (cases "T = {?g}")
    case True
    let ?V = "Arr (?av pall)"
    let ?sb = "?sa\<lparr>proms := (proms s1)(pall := \<lparr>pstate = Fulfilled ?V, reactions = []\<rparr>),
                   jobs := jobs s1 @ [Fulfil R qf ?V]\<rparr>"
    have z: "card (T - {?g}) = 0" using zero True by blast
    have pa1: "proms s1 pall = \<lparr>pstate = Pending, reactions = [(R, qf)]\<rparr>"
      using pall d1(1) by (simp add: p1)
    have B: "resolve_p pall ?V ?sa = ?sb" using pa1 by (simp add: resolve_p_def)
    have A0: "run_job (Fulfil (AllElement pall i) (qid i) v) s1 =
        resolve_p (qid i) Undefined (resolve_p pall ?V ?sa)"
      using z by (simp add: Let_def rs)
    have A: "run_job (Fulfil (AllElement pall i) (qid i) v) s1 = resolve_p (qid i) Undefined ?sb"
      unfolding A0 B ..
    have rq': "reactions (proms ?sb (qid i)) = []" using rq d1(3) d2 by (simp add: p1)
    from resolve_quiet[OF rq', of Undefined] obtain P where
      P: "resolve_p (qid i) Undefined ?sb = ?sb\<lparr>proms := P\<rparr>" "reactions (P (qid i)) = []"
         "\<forall>q. q \<noteq> qid i \<longrightarrow> P q = proms ?sb q" by blast
    let ?fin = "s1\<lparr>proms := P, remaining := ?r, allvalues := ?av,
           jobs := jobs s1 @ (if T = {gs ! i} then [Fulfil R qf ?V] else [])\<rparr>"
    have eq: "?sb\<lparr>proms := P\<rparr> = ?fin" using True by simp
    have bar: "barrier pid qid pall qf R gs (T - {?g}) ?fin"
    proof (rule barrier_others[OF b i])
      show "\<forall>q. q \<noteq> pid i \<and> q \<noteq> qid i \<and> q \<noteq> pall \<longrightarrow> proms ?fin q = proms s q"
        using P(3) by (simp add: p1)
      show "pstate (proms ?fin (pid i)) \<noteq> Pending" using P(3) d2 d1(1) by (simp add: p1)
      show "reactions (proms ?fin (qid i)) = []" using P(2) by simp
      show "T \<noteq> {gs ! i} \<longrightarrow> proms ?fin pall = proms s pall" using True by simp
      show "remaining ?fin pall = card (T - {gs ! i})" by simp
    qed
    have fr: "\<forall>q. q \<noteq> pall \<and> q \<noteq> qid i \<longrightarrow> P q = proms s1 q" using P(3) by simp
    have "run_job (Fulfil (AllElement pall i) (qid i) v) s1 = ?fin" using A P(1) eq by simp
    then show ?thesis using bar fr by blast
  next
    case False
    have nz: "card (T - {?g}) \<noteq> 0" using zero False by blast
    have A: "run_job (Fulfil (AllElement pall i) (qid i) v) s1 = resolve_p (qid i) Undefined ?sa"
      using nz by (simp add: Let_def rs)
    have rq': "reactions (proms ?sa (qid i)) = []" using rq d2 by (simp add: p1)
    from resolve_quiet[OF rq', of Undefined] obtain P where
      P: "resolve_p (qid i) Undefined ?sa = ?sa\<lparr>proms := P\<rparr>" "reactions (P (qid i)) = []"
         "\<forall>q. q \<noteq> qid i \<longrightarrow> P q = proms ?sa q" by blast
    let ?fin = "s1\<lparr>proms := P, remaining := ?r, allvalues := ?av,
           jobs := jobs s1 @ (if T = {gs ! i} then [Fulfil R qf Undefined] else [])\<rparr>"
    have eq: "?sa\<lparr>proms := P\<rparr> = ?fin" using False by (cases s1) simp
    have bar: "barrier pid qid pall qf R gs (T - {?g}) ?fin"
    proof (rule barrier_others[OF b i])
      show "\<forall>q. q \<noteq> pid i \<and> q \<noteq> qid i \<and> q \<noteq> pall \<longrightarrow> proms ?fin q = proms s q"
        using P(3) by (simp add: p1)
      show "pstate (proms ?fin (pid i)) \<noteq> Pending" using P(3) d2 by (simp add: p1)
      show "reactions (proms ?fin (qid i)) = []" using P(2) by simp
      show "T \<noteq> {gs ! i} \<longrightarrow> proms ?fin pall = proms s pall"
        using P(3) d1(1,3) by (simp add: p1)
      show "remaining ?fin pall = card (T - {gs ! i})" by simp
    qed
    have fr: "\<forall>q. q \<noteq> pall \<and> q \<noteq> qid i \<longrightarrow> P q = proms s1 q" using P(3) by simp
    have "run_job (Fulfil (AllElement pall i) (qid i) v) s1 = ?fin" using A P(1) eq by simp
    then show ?thesis using bar fr by blast
  qed
qed

lemma then_p_pending:
  "proms s p = \<lparr>pstate = Pending, reactions = rs\<rparr> \<Longrightarrow> p < fresh s \<Longrightarrow>
   then_p p r s =
     (fresh s, s\<lparr>fresh := Suc (fresh s),
        proms := (proms s)(fresh s := \<lparr>pstate = Pending, reactions = []\<rparr>,
                           p := \<lparr>pstate = Pending, reactions = rs @ [(r, fresh s)]\<rparr>)\<rparr>)"
  by (simp add: then_p_def new_promise_def)

lemma all_elements_frame:
  assumes "\<forall>p\<in>set ps. p < fresh s \<and> proms s p = \<lparr>pstate = Pending, reactions = []\<rparr>"
    and "distinct ps"
  shows "\<exists>P. all_elements pa i0 ps s = s\<lparr>fresh := fresh s + length ps, proms := P\<rparr>"
  using assms
proof (induction ps arbitrary: s i0)
  case Nil
  have "s = s\<lparr>fresh := fresh s + length [], proms := proms s\<rparr>" by simp
  then show ?case unfolding all_elements.simps by blast
next
  case (Cons p ps)
  let ?s1 = "s\<lparr>fresh := Suc (fresh s),
        proms := (proms s)(fresh s := \<lparr>pstate = Pending, reactions = []\<rparr>,
                           p := \<lparr>pstate = Pending, reactions = [(AllElement pa i0, fresh s)]\<rparr>)\<rparr>"
  have p: "p < fresh s" "proms s p = \<lparr>pstate = Pending, reactions = []\<rparr>"
    using Cons.prems(1) by simp_all
  have s1: "snd (then_p p (AllElement pa i0) s) = ?s1"
    using then_p_pending[OF p(2) p(1), of "AllElement pa i0"] by simp
  have pre: "\<forall>p'\<in>set ps. p' < fresh ?s1 \<and> proms ?s1 p' = \<lparr>pstate = Pending, reactions = []\<rparr>"
    using Cons.prems by auto
  have d: "distinct ps" using Cons.prems(2) by simp
  from Cons.IH[OF pre d, of "Suc i0"] obtain P where
    "all_elements pa (Suc i0) ps ?s1 = ?s1\<lparr>fresh := fresh ?s1 + length ps, proms := P\<rparr>" by blast
  then have "all_elements pa i0 (p # ps) s = s\<lparr>fresh := fresh s + length (p # ps), proms := P\<rparr>"
    by (simp add: s1)
  then show ?case by blast
qed

lemma all_elements_proms:
  assumes "\<forall>p\<in>set ps. p < fresh s \<and> proms s p = \<lparr>pstate = Pending, reactions = []\<rparr>"
    and "distinct ps"
  shows "(\<forall>j<length ps. proms (all_elements pa i0 ps s) (ps ! j) =
            \<lparr>pstate = Pending, reactions = [(AllElement pa (i0 + j), fresh s + j)]\<rparr>) \<and>
         (\<forall>j<length ps. proms (all_elements pa i0 ps s) (fresh s + j) =
            \<lparr>pstate = Pending, reactions = []\<rparr>) \<and>
         (\<forall>q. q \<notin> set ps \<and> q < fresh s \<longrightarrow> proms (all_elements pa i0 ps s) q = proms s q) \<and>
         (\<forall>q. fresh s + length ps \<le> q \<longrightarrow> proms (all_elements pa i0 ps s) q = proms s q) \<and>
         jobs (all_elements pa i0 ps s) = jobs s"
  using assms
proof (induction ps arbitrary: s i0)
  case Nil
  show ?case by simp
next
  case (Cons p ps)
  let ?s1 = "s\<lparr>fresh := Suc (fresh s),
        proms := (proms s)(fresh s := \<lparr>pstate = Pending, reactions = []\<rparr>,
                           p := \<lparr>pstate = Pending, reactions = [(AllElement pa i0, fresh s)]\<rparr>)\<rparr>"
  have p: "p < fresh s" "proms s p = \<lparr>pstate = Pending, reactions = []\<rparr>" using Cons.prems(1) by simp_all
  have s1: "snd (then_p p (AllElement pa i0) s) = ?s1"
    using then_p_pending[OF p(2) p(1), of "AllElement pa i0"] by simp
  have pre: "\<forall>p'\<in>set ps. p' < fresh ?s1 \<and> proms ?s1 p' = \<lparr>pstate = Pending, reactions = []\<rparr>"
    using Cons.prems by auto
  have d: "distinct ps" using Cons.prems(2) by simp
  note IH = Cons.IH[OF pre d, of "Suc i0"]
  have e: "all_elements pa i0 (p # ps) s = all_elements pa (Suc i0) ps ?s1" by (simp add: s1)
  have pn: "p \<notin> set ps" using Cons.prems(2) by simp
  show ?case unfolding e
  proof (intro conjI allI impI)
    fix j assume j: "j < length (p # ps)"
    show "proms (all_elements pa (Suc i0) ps ?s1) ((p # ps) ! j) =
            \<lparr>pstate = Pending, reactions = [(AllElement pa (i0 + j), fresh s + j)]\<rparr>"
    proof (cases j)
      case 0
      have "proms (all_elements pa (Suc i0) ps ?s1) p = proms ?s1 p" using IH pn p(1) by simp
      then show ?thesis using 0 by simp
    next
      case (Suc k)
      then have "k < length ps" using j by simp
      then show ?thesis using IH Suc by simp
    qed
    show "proms (all_elements pa (Suc i0) ps ?s1) (fresh s + j) = \<lparr>pstate = Pending, reactions = []\<rparr>"
    proof (cases j)
      case 0
      have "fresh s \<notin> set ps" using Cons.prems(1) by auto
      then have "proms (all_elements pa (Suc i0) ps ?s1) (fresh s) = proms ?s1 (fresh s)" using IH by simp
      then show ?thesis using 0 p(1) by simp
    next
      case (Suc k)
      then have "k < length ps" using j by simp
      then show ?thesis using IH Suc by simp
    qed
  next
    fix q assume q: "q \<notin> set (p # ps) \<and> q < fresh s"
    then have "proms (all_elements pa (Suc i0) ps ?s1) q = proms ?s1 q" using IH by simp
    then show "proms (all_elements pa (Suc i0) ps ?s1) q = proms s q" using q by simp
  next
    fix q assume q: "fresh s + length (p # ps) \<le> q"
    then have "proms (all_elements pa (Suc i0) ps ?s1) q = proms ?s1 q" using IH by simp
    then show "proms (all_elements pa (Suc i0) ps ?s1) q = proms s q" using q p(1) by simp
  next
    show "jobs (all_elements pa (Suc i0) ps ?s1) = jobs s" using IH by simp
  qed
qed

lemma promise_all_barrier:
  assumes K: "0 < length gs" and dist: "distinct gs"
    and inj: "\<forall>i<length gs. \<forall>j<length gs. pid i = pid j \<longrightarrow> i = j"
    and pre: "\<forall>i<length gs. pid i < fresh s \<and> proms s (pid i) = \<lparr>pstate = Pending, reactions = []\<rparr>"
  shows "fst (promise_all (map pid [0..<length gs]) s) = fresh s \<and>
    (\<exists>P r av.
       snd (then_p (fresh s) R (snd (promise_all (map pid [0..<length gs]) s))) =
         s\<lparr>fresh := Suc (Suc (fresh s + length gs)), proms := P, remaining := r, allvalues := av\<rparr> \<and>
       barrier pid (\<lambda>i. Suc (fresh s + i)) (fresh s) (Suc (fresh s + length gs)) R gs (set gs)
         (s\<lparr>fresh := Suc (Suc (fresh s + length gs)), proms := P, remaining := r, allvalues := av\<rparr>) \<and>
       (\<forall>q. q < fresh s \<and> q \<notin> set (map pid [0..<length gs]) \<longrightarrow> P q = proms s q))"
proof -
  let ?K = "length gs"
  let ?ps = "map pid [0..<?K]"
  let ?pa = "fresh s"
  let ?r = "(remaining s)(?pa := ?K)"
  let ?av = "(allvalues s)(?pa := replicate ?K Undefined)"
  let ?s2 = "s\<lparr>fresh := Suc (fresh s),
               proms := (proms s)(?pa := \<lparr>pstate = Pending, reactions = []\<rparr>),
               remaining := ?r, allvalues := ?av\<rparr>"
  let ?s3 = "all_elements ?pa 0 ?ps ?s2"
  have ne: "?ps \<noteq> []" using K by simp
  have pa: "promise_all ?ps s = (?pa, ?s3)"
    using ne by (simp add: promise_all_def new_promise_def Let_def)
  have dps: "distinct ?ps" using inj by (simp add: distinct_map inj_on_def)
  have pre2: "\<forall>p\<in>set ?ps. p < fresh ?s2 \<and> proms ?s2 p = \<lparr>pstate = Pending, reactions = []\<rparr>"
    using pre by auto
  from all_elements_frame[OF pre2 dps, of ?pa 0] obtain P3 where
    s3: "?s3 = ?s2\<lparr>fresh := fresh ?s2 + length ?ps, proms := P3\<rparr>" by blast
  note ap = all_elements_proms[OF pre2 dps, of ?pa 0]
  have P3: "P3 = proms ?s3" by (simp add: s3)
  have a1: "\<forall>j<?K. P3 (pid j) = \<lparr>pstate = Pending, reactions = [(AllElement ?pa j, Suc (fresh s + j))]\<rparr>"
    using ap unfolding P3 by simp
  have a2: "\<forall>j<?K. P3 (Suc (fresh s + j)) = \<lparr>pstate = Pending, reactions = []\<rparr>"
    using ap unfolding P3 by simp
  have "?pa \<notin> set ?ps" using pre by auto
  then have a3: "P3 ?pa = \<lparr>pstate = Pending, reactions = []\<rparr>"
    using ap unfolding P3 by simp
  let ?q = "Suc (fresh s + ?K)"
  let ?P4 = "P3(?q := \<lparr>pstate = Pending, reactions = []\<rparr>,
                ?pa := \<lparr>pstate = Pending, reactions = [(R, ?q)]\<rparr>)"
  let ?s4 = "s\<lparr>fresh := Suc ?q, proms := ?P4, remaining := ?r, allvalues := ?av\<rparr>"
  have "proms ?s3 ?pa = \<lparr>pstate = Pending, reactions = []\<rparr>" "?pa < fresh ?s3"
    using a3 by (simp_all add: s3)
  from then_p_pending[OF this, of R]
  have t: "snd (then_p ?pa R ?s3) = ?s4" by (simp add: s3)
  have bar: "barrier pid (\<lambda>i. Suc (fresh s + i)) ?pa ?q R gs (set gs) ?s4"
    unfolding barrier_def
  proof (intro conjI)
    show "distinct gs" by (rule dist)
    show "set gs \<subseteq> set gs" by simp
    show "?pa \<noteq> ?q" by simp
    show "\<forall>i<?K. \<forall>j<?K. pid i \<noteq> Suc (fresh s + j) \<and> pid i \<noteq> ?pa \<and> pid i \<noteq> ?q \<and>
        Suc (fresh s + i) \<noteq> ?pa \<and> Suc (fresh s + i) \<noteq> ?q \<and> (pid i = pid j \<longrightarrow> i = j)"
    proof (intro allI impI)
      fix i j assume i: "i < ?K" and j: "j < ?K"
      have "pid i < fresh s" using pre i by blast
      moreover have "pid i = pid j \<longrightarrow> i = j" using inj i j by blast
      ultimately show "pid i \<noteq> Suc (fresh s + j) \<and> pid i \<noteq> ?pa \<and> pid i \<noteq> ?q \<and>
        Suc (fresh s + i) \<noteq> ?pa \<and> Suc (fresh s + i) \<noteq> ?q \<and> (pid i = pid j \<longrightarrow> i = j)"
        using i by simp
    qed
    show "\<forall>i<?K. if gs ! i \<in> set gs
        then proms ?s4 (pid i) = \<lparr>pstate = Pending, reactions = [(AllElement ?pa i, Suc (fresh s + i))]\<rparr>
        else pstate (proms ?s4 (pid i)) \<noteq> Pending"
    proof (intro allI impI)
      fix i assume i: "i < ?K"
      have "pid i < fresh s" using pre i by blast
      then show "if gs ! i \<in> set gs
        then proms ?s4 (pid i) = \<lparr>pstate = Pending, reactions = [(AllElement ?pa i, Suc (fresh s + i))]\<rparr>
        else pstate (proms ?s4 (pid i)) \<noteq> Pending"
        using a1 i by simp
    qed
    show "\<forall>i<?K. reactions (proms ?s4 (Suc (fresh s + i))) = []" using a2 by simp
    show "reactions (proms ?s4 ?q) = []" by simp
    show "remaining ?s4 ?pa = card (set gs)" using dist by (simp add: distinct_card)
    show "set gs \<noteq> {} \<longrightarrow> proms ?s4 ?pa = \<lparr>pstate = Pending, reactions = [(R, ?q)]\<rparr>" by simp
  qed
  have fr: "\<forall>q. q < fresh s \<and> q \<notin> set ?ps \<longrightarrow> ?P4 q = proms s q"
  proof (intro allI impI)
    fix q assume q: "q < fresh s \<and> q \<notin> set ?ps"
    then have "q \<notin> set ?ps \<and> q < fresh ?s2" by simp
    then have "P3 q = proms ?s2 q" using ap unfolding P3 by blast
    then show "?P4 q = proms s q" using q by simp
  qed
  have "snd (then_p (fresh s) R (snd (promise_all ?ps s))) = ?s4" using pa t by simp
  then have "\<exists>P r av.
       snd (then_p (fresh s) R (snd (promise_all ?ps s))) =
         s\<lparr>fresh := Suc (Suc (fresh s + length gs)), proms := P, remaining := r, allvalues := av\<rparr> \<and>
       barrier pid (\<lambda>i. Suc (fresh s + i)) (fresh s) (Suc (fresh s + length gs)) R gs (set gs)
         (s\<lparr>fresh := Suc (Suc (fresh s + length gs)), proms := P, remaining := r, allvalues := av\<rparr>) \<and>
       (\<forall>q. q < fresh s \<and> q \<notin> set ?ps \<longrightarrow> P q = proms s q)"
    using bar fr by (intro exI[of _ ?P4] exI[of _ ?r] exI[of _ ?av]) simp
  then show ?thesis using pa by simp
qed

lemma barrier_cong:
  "proms s' = proms s \<Longrightarrow> remaining s' = remaining s \<Longrightarrow>
   barrier pid qid pall qf R gs T s' = barrier pid qid pall qf R gs T s"
  by (simp add: barrier_def)

lemma count_map_snoc:
  "(count_map inh hasher seen)
     (hasher x \<mapsto> (if inh (hasher x) then Text else Count (Suc (occurrences hasher seen x)))) =
   count_map inh hasher (seen @ [x])"
  by (rule ext) (simp add: count_map_def occurrences_def)

lemma count_map_own:
  "\<not> inh (hasher x) \<Longrightarrow>
   count_map inh hasher seen (hasher x) =
     (if occurrences hasher seen x = 0 then None else Some (Count (occurrences hasher seen x)))"
  by (auto simp: count_map_def occurrences_def list_ex_iff filter_empty_conv)

lemma count_map_inherited:
  "inh (hasher x) \<Longrightarrow>
   count_map inh hasher seen (hasher x) = None \<or> count_map inh hasher seen (hasher x) = Some Text"
  by (simp add: count_map_def)

lemma handleEmit_hash_eq:
  assumes "maps s m = count_map (proto_members s) hasher seen"
  shows "handleEmit_hash m hasher K out x s =
     s\<lparr>maps := (maps s)(m := count_map (proto_members s) hasher (seen @ [x])),
       timers := timers s @
         (if \<not> proto_members s (hasher x) \<and> Suc (occurrences hasher seen x) = K
          then [DispatchEmit out x NoHook] else [])\<rparr>"
proof -
  let ?c = "occurrences hasher seen x"
  let ?new = "if proto_members s (hasher x) then Text else Count (Suc ?c)"
  have cnt: "(case (case (case maps s m (hasher x) of
                           Some v \<Rightarrow> Some v
                         | None \<Rightarrow> (if proto_members s (hasher x) then Some Member else None)) of
                     Some (Count c) \<Rightarrow> (if c \<noteq> 0 then Count c else Count 0)
                   | Some v \<Rightarrow> v
                   | None \<Rightarrow> Count 0) of
               Count c \<Rightarrow> Count (c + 1) | v \<Rightarrow> Text) = ?new"
  proof (cases "proto_members s (hasher x)")
    case True
    from count_map_inherited[of "proto_members s" hasher x seen, OF True]
    show ?thesis unfolding assms using True by auto
  next
    case False
    have "maps s m (hasher x) = (if ?c = 0 then None else Some (Count ?c))"
      unfolding assms by (rule count_map_own[of "proto_members s" hasher x seen, OF False])
    then show ?thesis using False by simp
  qed
  have u: "(maps s m)(hasher x \<mapsto> ?new) = count_map (proto_members s) hasher (seen @ [x])"
    unfolding assms by (rule count_map_snoc)
  have e: "handleEmit_hash m hasher K out x s =
      (if ?new = Count K
       then emit_h out x NoHook (s\<lparr>maps := (maps s)(m := (maps s m)(hasher x \<mapsto> ?new))\<rparr>)
       else s\<lparr>maps := (maps s)(m := (maps s m)(hasher x \<mapsto> ?new))\<rparr>)"
    unfolding handleEmit_hash_def Let_def cnt ..
  show ?thesis unfolding e u by (simp add: emit_h_def)
qed

lemma hash_inv_frame:
  assumes "hash_inv f gs hasher n seen T s"
    and "jobs s' = []" "gens s' = gens s"
    and "maps s' (Suc f) = count_map (proto_members s) hasher seen'"
    and "proms s' = proms s" "remaining s' = remaining s" "proto_members s' = proto_members s"
  shows "hash_inv f gs hasher n seen' T s'"
  using assms unfolding hash_inv_def observed_def
  by (simp add: barrier_cong[of s' s])

lemma hash_step_emit:
  assumes inv: "hash_inv f gs hasher n seen T s"
    and t: "timers s = DispatchEmit g x hk # rest" and g: "g \<in> set gs"
  shows "\<exists>s'. run s = run s' \<and> hash_inv f gs hasher n (seen @ [x]) T s' \<and> log s' = log s \<and>
     proto_members s' = proto_members s \<and>
     timers s' = rest @ (if \<not> proto_members s (hasher x) \<and>
                            Suc (occurrences hasher seen x) = length gs
                         then [DispatchEmit f x NoHook] else [])"
proof -
  from g obtain i where i: "i < length gs" "gs ! i = g" by (auto simp: in_set_conv_nth)
  have j: "jobs s = []" using inv by (simp add: hash_inv_def)
  have gen: "registeredEmits (gens s g) = [HandleEmitHash (Suc f) hasher (length gs) f]"
    using inv i unfolding hash_inv_def by auto
  have m: "maps (s\<lparr>timers := rest\<rparr>) (Suc f) =
      count_map (proto_members (s\<lparr>timers := rest\<rparr>)) hasher seen"
    using inv by (simp add: hash_inv_def)
  let ?s' = "run_task (DispatchEmit g x hk) (s\<lparr>timers := rest\<rparr>)"
  let ?t = "s\<lparr>maps := (maps s)(Suc f := count_map (proto_members s) hasher (seen @ [x])),
       timers := rest @
         (if \<not> proto_members s (hasher x) \<and> Suc (occurrences hasher seen x) = length gs
          then [DispatchEmit f x NoHook] else [])\<rparr>"
  have e: "?s' = ?t"
    using gen by (simp add: handleEmit_hash_eq[OF m])
  have r: "run s = run ?t" using run_timer[OF j t] unfolding e .
  have h: "hash_inv f gs hasher n (seen @ [x]) T ?t"
    by (rule hash_inv_frame[OF inv]) (simp_all add: j)
  show ?thesis using r h by (intro exI[of _ ?t] conjI) simp_all
qed

lemma hash_step_catch:
  assumes inv: "hash_inv f gs hasher n seen T s"
    and t: "timers s = DispatchCatch g e # rest" and g: "g \<in> set gs"
  shows "\<exists>s'. run s = run s' \<and> hash_inv f gs hasher n seen T s' \<and> log s' = log s \<and>
     proto_members s' = proto_members s \<and> timers s' = rest"
proof -
  from g obtain i where i: "i < length gs" "gs ! i = g" by (auto simp: in_set_conv_nth)
  have j: "jobs s = []" using inv by (simp add: hash_inv_def)
  have gen: "registeredCatches (gens s g) = []"
    using inv i unfolding hash_inv_def by auto
  let ?s' = "run_task (DispatchCatch g e) (s\<lparr>timers := rest\<rparr>)"
  let ?t = "s\<lparr>timers := rest\<rparr>"
  have e: "?s' = ?t" using gen by simp
  have r: "run s = run ?t" using run_timer[OF j t] unfolding e .
  have h: "hash_inv f gs hasher n seen T ?t"
    by (rule hash_inv_frame[OF inv]) (use inv in \<open>simp_all add: j hash_inv_def\<close>)
  show ?thesis using r h by (intro exI[of _ ?t] conjI) simp_all
qed

lemma barrier_empty_qf:
  assumes b: "barrier pid qid pall qf R gs {} s"
    and P: "\<forall>q. q \<noteq> qf \<longrightarrow> proms s' q = proms s q" and Pq: "reactions (proms s' qf) = []"
    and r: "remaining s' = remaining s"
  shows "barrier pid qid pall qf R gs {} s'"
proof -
  have ids: "\<forall>i<length gs. \<forall>j<length gs.
        pid i \<noteq> qid j \<and> pid i \<noteq> pall \<and> pid i \<noteq> qf \<and> qid i \<noteq> pall \<and> qid i \<noteq> qf \<and>
        (pid i = pid j \<longrightarrow> i = j)" using b unfolding barrier_def by blast
  have old: "\<forall>j<length gs. pstate (proms s (pid j)) \<noteq> Pending"
    using b unfolding barrier_def by simp
  have oldq: "\<forall>j<length gs. reactions (proms s (qid j)) = []"
    using b unfolding barrier_def by blast
  have c1: "\<forall>j<length gs. pstate (proms s' (pid j)) \<noteq> Pending"
  proof (intro allI impI)
    fix j assume j: "j < length gs"
    then have "pid j \<noteq> qf" using ids by blast
    then show "pstate (proms s' (pid j)) \<noteq> Pending" using P old j by simp
  qed
  have c2: "\<forall>j<length gs. reactions (proms s' (qid j)) = []"
  proof (intro allI impI)
    fix j assume j: "j < length gs"
    then have "qid j \<noteq> qf" using ids by blast
    then show "reactions (proms s' (qid j)) = []" using P oldq j by simp
  qed
  have "distinct gs" "pall \<noteq> qf" "remaining s pall = 0" using b unfolding barrier_def by simp_all
  then show ?thesis unfolding barrier_def using ids c1 c2 Pq r by simp
qed

lemma hash_step_done:
  assumes inv: "hash_inv f gs hasher n seen T s"
    and t: "timers s = DispatchDone g # rest" and g: "g \<in> set gs"
  shows "\<exists>s'. run s = run s' \<and> hash_inv f gs hasher n seen (T - {g}) s' \<and> log s' = log s \<and>
     proto_members s' = proto_members s \<and>
     timers s' = rest @ (if T = {g} then [DispatchDone f] else [])"
proof -
  let ?K = "length gs"
  let ?pid = "\<lambda>i. Suc (Suc (f + i))"
  let ?qid = "\<lambda>i. Suc (Suc (Suc (f + ?K + i)))"
  let ?pall = "Suc (Suc (f + ?K))"
  let ?qf = "Suc (Suc (Suc (f + ?K + ?K)))"
  from g obtain i where i: "i < length gs" "gs ! i = g" by (auto simp: in_set_conv_nth)
  have j: "jobs s = []" using inv by (simp add: hash_inv_def)
  have gen: "registeredDones (gens s g) = [ResolveUnit (?pid i)]"
    using inv i unfolding hash_inv_def by auto
  have b: "barrier ?pid ?qid ?pall ?qf (CallDoneOf f) gs T s"
    using inv by (simp add: hash_inv_def)
  let ?s0 = "s\<lparr>timers := rest\<rparr>"
  have b0: "barrier ?pid ?qid ?pall ?qf (CallDoneOf f) gs T ?s0"
    using b by (simp add: barrier_cong[of ?s0 s])
  let ?s1 = "run_task (DispatchDone g) ?s0"
  have e1: "?s1 = resolve_p (?pid i) Undefined ?s0" using gen by simp
  have r1: "run s = run ?s1" by (rule run_timer[OF j t])
  show ?thesis
  proof (cases "g \<in> T")
    case False
    then have "gs ! i \<notin> T" using i by simp
    from barrier_resolve_done[OF b0 i(1) this]
    have e: "?s1 = ?s0" unfolding e1 .
    have h: "hash_inv f gs hasher n seen T ?s0"
      by (rule hash_inv_frame[OF inv]) (use inv in \<open>simp_all add: j hash_inv_def\<close>)
    have "T - {g} = T" "T \<noteq> {g}" using False by blast+
    then show ?thesis using r1 h unfolding e by (intro exI[of _ ?s0]) simp
  next
    case True
    then have iT: "gs ! i \<in> T" using i by simp
    let ?j1 = "Fulfil (AllElement ?pall i) (?qid i) Undefined"
    let ?t1 = "s\<lparr>timers := rest,
        proms := (proms s)(?pid i := \<lparr>pstate = Fulfilled Undefined, reactions = []\<rparr>),
        jobs := [?j1]\<rparr>"
    from barrier_resolve_pending[OF b0 i(1) iT, of Undefined]
    have e: "?s1 = ?t1"
      unfolding e1 by (simp add: j)
    let ?t1' = "?t1\<lparr>jobs := []\<rparr>"
    have j1: "jobs ?t1 = [?j1]" by simp
    have r2: "run ?t1 = run (run_job ?j1 ?t1')" by (rule run_job_step[OF j1])
    have p1: "proms ?t1' = (proms s)(?pid i := \<lparr>pstate = Fulfilled Undefined, reactions = []\<rparr>)"
      by simp
    have rm: "remaining ?t1' = remaining s" by simp
    from barrier_job[OF b i(1) iT p1 rm] obtain P r av V where
      e2: "run_job ?j1 ?t1' = ?t1'\<lparr>proms := P, remaining := r, allvalues := av,
             jobs := jobs ?t1' @ (if T = {gs ! i} then [Fulfil (CallDoneOf f) ?qf V] else [])\<rparr>"
      and b2: "barrier ?pid ?qid ?pall ?qf (CallDoneOf f) gs (T - {gs ! i})
         (?t1'\<lparr>proms := P, remaining := r, allvalues := av,
             jobs := jobs ?t1' @ (if T = {gs ! i} then [Fulfil (CallDoneOf f) ?qf V] else [])\<rparr>)"
      by blast
    have r1': "run s = run ?t1" using r1 unfolding e .
    show ?thesis
    proof (cases "T = {g}")
      case False
      let ?s2 = "s\<lparr>timers := rest, proms := P, remaining := r, allvalues := av, jobs := []\<rparr>"
      have e2': "run_job ?j1 ?t1' = ?s2" using e2 False i(2) by simp
      have b2': "barrier ?pid ?qid ?pall ?qf (CallDoneOf f) gs (T - {g}) ?s2"
        using b2 False i(2) by simp
      have r3: "run s = run ?s2" using r1' r2 e2' by simp
      have h: "hash_inv f gs hasher n seen (T - {g}) ?s2"
        using inv b2' unfolding hash_inv_def observed_def by simp
      show ?thesis using r3 h False by (intro exI[of _ ?s2]) simp
    next
      case T1: True
      let ?j2 = "Fulfil (CallDoneOf f) ?qf V"
      let ?s2 = "s\<lparr>timers := rest, proms := P, remaining := r, allvalues := av, jobs := [?j2]\<rparr>"
      have e2': "run_job ?j1 ?t1' = ?s2" using e2 T1 i(2) by simp
      have b2e: "barrier ?pid ?qid ?pall ?qf (CallDoneOf f) gs {} ?s2"
        using b2 T1 i(2) by simp
      have r3: "run s = run ?s2" using r1' r2 e2' by simp
      have j2: "jobs ?s2 = [?j2]" by simp
      let ?s2' = "?s2\<lparr>jobs := []\<rparr>"
      have r4: "run ?s2 = run (run_job ?j2 ?s2')" by (rule run_job_step[OF j2])
      have b2'': "barrier ?pid ?qid ?pall ?qf (CallDoneOf f) gs {} (done_h f ?s2')"
        using b2e barrier_cong[of "done_h f ?s2'" ?s2] by (simp add: done_h_def)
      then have "reactions (proms (done_h f ?s2') ?qf) = []" unfolding barrier_def by blast
      from resolve_quiet[OF this, of Undefined] obtain P' where
        P': "resolve_p ?qf Undefined (done_h f ?s2') = (done_h f ?s2')\<lparr>proms := P'\<rparr>"
          "reactions (P' ?qf) = []" "\<forall>q. q \<noteq> ?qf \<longrightarrow> P' q = proms (done_h f ?s2') q" by blast
      let ?s3 = "s\<lparr>timers := rest @ [DispatchDone f], proms := P', remaining := r, allvalues := av,
             jobs := []\<rparr>"
      have e3: "run_job ?j2 ?s2' = ?s3" using P'(1) by (simp add: done_h_def)
      have b3: "barrier ?pid ?qid ?pall ?qf (CallDoneOf f) gs {} ?s3"
        by (rule barrier_empty_qf[OF b2'']) (use P' in \<open>simp_all add: done_h_def\<close>)
      have b3': "barrier ?pid ?qid ?pall ?qf (CallDoneOf f) gs (T - {g}) ?s3"
        using b3 T1 by simp
      have h: "hash_inv f gs hasher n seen (T - {g}) ?s3"
        using inv b3' unfolding hash_inv_def observed_def by simp
      have "run s = run ?s3" using r3 r4 e3 by simp
      then show ?thesis using h T1 by (intro exI[of _ ?s3]) simp
    qed
  qed
qed

lemma inputs_only_Cons:
  "inputs_only gs (t # ts) \<longleftrightarrow> (\<exists>g\<in>set gs. task_on g t) \<and> inputs_only gs ts"
  by (simp add: inputs_only_def list_ex_iff)

lemma hash_phase1:
  assumes "hash_inv f gs hasher n seen T s" "timers s = ts @ outq" "inputs_only gs ts"
  shows "\<exists>s'. run s = run s' \<and> observed f n s' \<and> jobs s' = [] \<and> log s' = log s \<and>
     timers s' = outq @ hash_out (proto_members s) f (length gs) hasher seen T ts"
  using assms
proof (induction ts arbitrary: s seen T outq)
  case Nil
  then show ?case by (intro exI[of _ s]) (simp add: hash_inv_def)
next
  case (Cons t ts)
  from Cons.prems(3) obtain g where g: "g \<in> set gs" "task_on g t" and io: "inputs_only gs ts"
    unfolding inputs_only_Cons by blast
  show ?case
  proof (cases t)
    case (DispatchEmit g' x hk)
    then have t: "timers s = DispatchEmit g x hk # (ts @ outq)" using Cons.prems(2) g(2) by simp
    let ?new = "if \<not> proto_members s (hasher x) \<and> Suc (occurrences hasher seen x) = length gs
                then [DispatchEmit f x NoHook] else []"
    from hash_step_emit[OF Cons.prems(1) t g(1)] obtain s1 where
      s1: "run s = run s1" "hash_inv f gs hasher n (seen @ [x]) T s1" "log s1 = log s"
        "timers s1 = (ts @ outq) @ ?new" and pm: "proto_members s1 = proto_members s" by blast
    have t1: "timers s1 = ts @ (outq @ ?new)" using s1(4) by simp
    from Cons.IH[OF s1(2) t1 io] obtain s' where
      "run s1 = run s'" "observed f n s'" "jobs s' = []" "log s' = log s1"
      "timers s' = (outq @ ?new) @ hash_out (proto_members s1) f (length gs) hasher (seen @ [x]) T ts"
      by blast
    then show ?thesis using s1(1,3) pm DispatchEmit by (intro exI[of _ s']) simp
  next
    case (DispatchDone g')
    then have t: "timers s = DispatchDone g # (ts @ outq)" using Cons.prems(2) g(2) by simp
    let ?new = "if T = {g} then [DispatchDone f] else []"
    from hash_step_done[OF Cons.prems(1) t g(1)] obtain s1 where
      s1: "run s = run s1" "hash_inv f gs hasher n seen (T - {g}) s1" "log s1 = log s"
        "timers s1 = (ts @ outq) @ ?new" and pm: "proto_members s1 = proto_members s" by blast
    have t1: "timers s1 = ts @ (outq @ ?new)" using s1(4) by simp
    have gg: "g' = g" using g(2) DispatchDone by simp
    from Cons.IH[OF s1(2) t1 io] obtain s' where
      "run s1 = run s'" "observed f n s'" "jobs s' = []" "log s' = log s1"
      "timers s' = (outq @ ?new) @ hash_out (proto_members s1) f (length gs) hasher seen (T - {g}) ts"
      by blast
    then show ?thesis using s1(1,3) pm DispatchDone gg by (intro exI[of _ s']) simp
  next
    case (DispatchCatch g' e)
    then have t: "timers s = DispatchCatch g e # (ts @ outq)" using Cons.prems(2) g(2) by simp
    from hash_step_catch[OF Cons.prems(1) t g(1)] obtain s1 where
      s1: "run s = run s1" "hash_inv f gs hasher n seen T s1" "log s1 = log s"
        "timers s1 = ts @ outq" and pm: "proto_members s1 = proto_members s" by blast
    from Cons.IH[OF s1(2) s1(4) io] obtain s' where
      "run s1 = run s'" "observed f n s'" "jobs s' = []" "log s' = log s1"
      "timers s' = outq @ hash_out (proto_members s1) f (length gs) hasher seen T ts" by blast
    then show ?thesis using s1(1,3) pm DispatchCatch by (intro exI[of _ s']) simp
  next
    case (LegacyStart g' cb)
    then show ?thesis using g(2) by simp
  qed
qed

lemma items_of_silent:
  "inputs_only gs ts \<Longrightarrow> \<forall>g\<in>set gs. items_on g ts = [] \<Longrightarrow> items_of ts = []"
proof (induction ts)
  case Nil
  show ?case by simp
next
  case (Cons t ts)
  from Cons.prems(1) obtain g where g: "g \<in> set gs" "task_on g t" and io: "inputs_only gs ts"
    unfolding inputs_only_Cons by blast
  show ?case
  proof (cases t)
    case (DispatchEmit g' x hk)
    then have "items_on g (t # ts) \<noteq> []" using g(2) by simp
    then show ?thesis using Cons.prems(2) g(1) by blast
  next
    case (DispatchDone g')
    then show ?thesis using Cons.IH[OF io] Cons.prems(2) by simp
  next
    case (DispatchCatch g' e)
    then show ?thesis using Cons.IH[OF io] Cons.prems(2) by simp
  next
    case (LegacyStart g' cb)
    then show ?thesis using g(2) by simp
  qed
qed

lemma hash_out_spec:
  assumes "inputs_only gs ts" "quiet_after_done ts" "T \<subseteq> set gs"
    and "\<forall>g\<in>set gs - T. items_on g ts = []"
  shows "hash_out inh out K hasher seen T ts =
     map (\<lambda>x. DispatchEmit out x NoHook)
       (filter (\<lambda>x. \<not> inh (hasher x)) (kth_from K hasher seen (items_of ts))) @
     (if T \<noteq> {} \<and> (\<forall>g\<in>T. DispatchDone g \<in> set ts) then [DispatchDone out] else [])"
  using assms
proof (induction ts arbitrary: seen T)
  case Nil
  show ?case by auto
next
  case (Cons t ts)
  from Cons.prems(1) obtain g where g: "g \<in> set gs" "task_on g t" and io: "inputs_only gs ts"
    unfolding inputs_only_Cons by blast
  show ?case
  proof (cases t)
    case (DispatchEmit g' x hk)
    have q: "quiet_after_done ts" using Cons.prems(2) DispatchEmit by simp
    have sil: "\<forall>g\<in>set gs - T. items_on g ts = []"
      using Cons.prems(4) DispatchEmit by (auto split: if_splits)
    have d: "\<And>h. DispatchDone h \<in> set (t # ts) \<longleftrightarrow> DispatchDone h \<in> set ts"
      using DispatchEmit by auto
    show ?thesis
      using Cons.IH[OF io q Cons.prems(3) sil, of "seen @ [x]"] DispatchEmit d by simp
  next
    case (DispatchDone g')
    have gg: "g' = g" using g(2) DispatchDone by simp
    have q: "quiet_after_done ts" and qg: "items_on g ts = []"
      using Cons.prems(2) DispatchDone gg by simp_all
    have sub: "T - {g} \<subseteq> set gs" using Cons.prems(3) by blast
    have sil: "\<forall>h\<in>set gs - (T - {g}). items_on h ts = []"
      using Cons.prems(4) DispatchDone qg by auto
    note IH = Cons.IH[OF io q sub sil, of seen]
    show ?thesis
    proof (cases "T = {g}")
      case True
      then have "set gs - (T - {g}) = set gs" by blast
      then have "\<forall>h\<in>set gs. items_on h ts = []" using sil by metis
      then have e: "items_of ts = []" by (rule items_of_silent[OF io])
      show ?thesis using IH True e DispatchDone gg by simp
    next
      case False
      show ?thesis
      proof (cases "g \<in> T")
        case True
        then have ne: "T - {g} \<noteq> {}" "T \<noteq> {}" using False by blast+
        have "(\<forall>h\<in>T. DispatchDone h \<in> set (t # ts)) \<longleftrightarrow> (\<forall>h\<in>T - {g}. DispatchDone h \<in> set ts)"
          using DispatchDone gg by auto
        then show ?thesis using IH False ne DispatchDone gg by simp
      next
        case g: False
        then have e: "T - {g} = T" by blast
        have "(\<forall>h\<in>T. DispatchDone h \<in> set (t # ts)) \<longleftrightarrow> (\<forall>h\<in>T. DispatchDone h \<in> set ts)"
          using DispatchDone gg g by auto
        then show ?thesis using IH[unfolded e] False DispatchDone gg by (simp add: e)
      qed
    qed
  next
    case (DispatchCatch g' e)
    have q: "quiet_after_done ts" using Cons.prems(2) DispatchCatch by simp
    have sil: "\<forall>g\<in>set gs - T. items_on g ts = []"
      using Cons.prems(4) DispatchCatch by auto
    have d: "\<And>h. DispatchDone h \<in> set (t # ts) \<longleftrightarrow> DispatchDone h \<in> set ts"
      using DispatchCatch by auto
    show ?thesis
      using Cons.IH[OF io q Cons.prems(3) sil, of seen] DispatchCatch d by simp
  next
    case (LegacyStart g' cb)
    then show ?thesis using g(2) by simp
  qed
qed

lemma hash_inputs_eq:
  assumes "distinct gs"
  shows "fst (hash_inputs gs h s) = map (\<lambda>i. fresh s + i) [0..<length gs] \<and>
    (\<exists>G P. snd (hash_inputs gs h s) = s\<lparr>fresh := fresh s + length gs, gens := G, proms := P\<rparr> \<and>
       (\<forall>i<length gs. G (gs ! i) = (gens s (gs ! i))
           \<lparr>registeredEmits := registeredEmits (gens s (gs ! i)) @ [h],
            registeredDones := registeredDones (gens s (gs ! i)) @ [ResolveUnit (fresh s + i)]\<rparr>) \<and>
       (\<forall>g. g \<notin> set gs \<longrightarrow> G g = gens s g) \<and>
       (\<forall>i<length gs. P (fresh s + i) = \<lparr>pstate = Pending, reactions = []\<rparr>) \<and>
       (\<forall>p. p < fresh s \<longrightarrow> P p = proms s p))"
  using assms
proof (induction gs arbitrary: s)
  case Nil
  have "s = s\<lparr>gens := gens s, proms := proms s\<rparr>" by simp
  then have "\<exists>G P. s = s\<lparr>gens := G, proms := P\<rparr> \<and>
           (\<forall>g. G g = gens s g) \<and> (\<forall>p<fresh s. P p = proms s p)"
    by (intro exI[of _ "gens s"] exI[of _ "proms s"]) simp
  then show ?case by simp
next
  case (Cons g gs)
  let ?s2 = "s\<lparr>fresh := Suc (fresh s),
       gens := (gens s)(g := (gens s g)
           \<lparr>registeredEmits := registeredEmits (gens s g) @ [h],
            registeredDones := registeredDones (gens s g) @ [ResolveUnit (fresh s)]\<rparr>),
       proms := (proms s)(fresh s := \<lparr>pstate = Pending, reactions = []\<rparr>)\<rparr>"
  have s2: "done_g g (ResolveUnit (fresh s)) (emit_g g h (snd (new_promise s))) = ?s2"
    by (simp add: done_g_def emit_g_def new_promise_def)
  have d: "distinct gs" and gn: "g \<notin> set gs" using Cons.prems by simp_all
  from Cons.IH[OF d, of ?s2] obtain G P where
    f: "fst (hash_inputs gs h ?s2) = map (\<lambda>i. fresh ?s2 + i) [0..<length gs]"
    and e: "snd (hash_inputs gs h ?s2) = ?s2\<lparr>fresh := fresh ?s2 + length gs, gens := G, proms := P\<rparr>"
    and G1: "\<forall>i<length gs. G (gs ! i) = (gens ?s2 (gs ! i))
           \<lparr>registeredEmits := registeredEmits (gens ?s2 (gs ! i)) @ [h],
            registeredDones := registeredDones (gens ?s2 (gs ! i)) @ [ResolveUnit (fresh ?s2 + i)]\<rparr>"
    and G2: "\<forall>g'. g' \<notin> set gs \<longrightarrow> G g' = gens ?s2 g'"
    and P1: "\<forall>i<length gs. P (fresh ?s2 + i) = \<lparr>pstate = Pending, reactions = []\<rparr>"
    and P2: "\<forall>p. p < fresh ?s2 \<longrightarrow> P p = proms ?s2 p"
    by blast
  have u: "hash_inputs (g # gs) h s =
      (fresh s # fst (hash_inputs gs h ?s2), snd (hash_inputs gs h ?s2))"
    using s2 by (simp add: new_promise_def split: prod.splits)
  have c1: "fst (hash_inputs (g # gs) h s) = map (\<lambda>i. fresh s + i) [0..<length (g # gs)]"
    unfolding u using f by (simp add: map_upt_Suc del: upt_Suc)
  have c2: "snd (hash_inputs (g # gs) h s) =
      s\<lparr>fresh := fresh s + length (g # gs), gens := G, proms := P\<rparr>"
    unfolding u using e by simp
  have c3: "\<forall>i<length (g # gs). G ((g # gs) ! i) = (gens s ((g # gs) ! i))
           \<lparr>registeredEmits := registeredEmits (gens s ((g # gs) ! i)) @ [h],
            registeredDones := registeredDones (gens s ((g # gs) ! i)) @ [ResolveUnit (fresh s + i)]\<rparr>"
  proof (intro allI impI)
    fix i assume i: "i < length (g # gs)"
    show "G ((g # gs) ! i) = (gens s ((g # gs) ! i))
           \<lparr>registeredEmits := registeredEmits (gens s ((g # gs) ! i)) @ [h],
            registeredDones := registeredDones (gens s ((g # gs) ! i)) @ [ResolveUnit (fresh s + i)]\<rparr>"
    proof (cases i)
      case 0
      then show ?thesis using G2 gn by simp
    next
      case (Suc k)
      then have k: "k < length gs" using i by simp
      then have "gs ! k \<noteq> g" using gn by auto
      then show ?thesis using G1 k Suc by simp
    qed
  qed
  have c4: "\<forall>g'. g' \<notin> set (g # gs) \<longrightarrow> G g' = gens s g'" using G2 by simp
  have c5: "\<forall>i<length (g # gs). P (fresh s + i) = \<lparr>pstate = Pending, reactions = []\<rparr>"
  proof (intro allI impI)
    fix i assume i: "i < length (g # gs)"
    show "P (fresh s + i) = \<lparr>pstate = Pending, reactions = []\<rparr>"
    proof (cases i)
      case 0
      then show ?thesis using P2 by simp
    next
      case (Suc k)
      then have k: "k < length gs" using i by simp
      then show ?thesis using P1 Suc by simp
    qed
  qed
  have c6: "\<forall>p. p < fresh s \<longrightarrow> P p = proms s p" using P2 by simp
  show ?case using c1 c2 c3 c4 c5 c6 by blast
qed

lemma count_map_Nil: "count_map inh hasher [] = Map.empty"
  by (rule ext) (simp add: count_map_def)

lemma inputs_pendingD:
  assumes "inputs_pending gs s"
  shows "jobs s = []" "distinct gs" "inputs_only gs (timers s)"
    and "g \<in> set gs \<Longrightarrow> g < fresh s"
    and "g \<in> set gs \<Longrightarrow>
         gens s g = \<lparr>registeredEmits = [], registeredCatches = [], registeredDones = []\<rparr>"
  using assms by (auto simp: inputs_pending_def list_all_iff)

lemma hash_setup:
  assumes ip: "inputs_pending gs s" and ne: "gs \<noteq> []"
  shows "fst (intersectByHash gs hasher s) = fresh s \<and>
    hash_inv (fresh s) gs hasher n [] (set gs)
      (observe_all (fresh s) n (snd (intersectByHash gs hasher s))) \<and>
    timers (observe_all (fresh s) n (snd (intersectByHash gs hasher s))) = timers s \<and>
    log (observe_all (fresh s) n (snd (intersectByHash gs hasher s))) = log s \<and>
    proto_members (observe_all (fresh s) n (snd (intersectByHash gs hasher s))) = proto_members s"
proof -
  let ?f = "fresh s"
  let ?K = "length gs"
  let ?H = "HandleEmitHash (Suc ?f) hasher ?K ?f"
  let ?R = "CallDoneOf ?f"
  let ?pid = "\<lambda>i. Suc (Suc (?f + i))"
  let ?s3 = "s\<lparr>fresh := Suc (Suc ?f),
      gens := (gens s)(?f := \<lparr>registeredEmits = [], registeredCatches = [], registeredDones = []\<rparr>),
      maps := (maps s)(Suc ?f := Map.empty)\<rparr>"
  note ipd = inputs_pendingD[OF ip]
  from hash_inputs_eq[OF ipd(2), of ?H ?s3] obtain G P where
    hs: "fst (hash_inputs gs ?H ?s3) = map (\<lambda>i. fresh ?s3 + i) [0..<?K]"
    and e4: "snd (hash_inputs gs ?H ?s3) = ?s3\<lparr>fresh := fresh ?s3 + ?K, gens := G, proms := P\<rparr>"
    and G1: "\<forall>i<?K. G (gs ! i) = (gens ?s3 (gs ! i))
           \<lparr>registeredEmits := registeredEmits (gens ?s3 (gs ! i)) @ [?H],
            registeredDones := registeredDones (gens ?s3 (gs ! i)) @ [ResolveUnit (fresh ?s3 + i)]\<rparr>"
    and G2: "\<forall>g. g \<notin> set gs \<longrightarrow> G g = gens ?s3 g"
    and P1: "\<forall>i<?K. P (fresh ?s3 + i) = \<lparr>pstate = Pending, reactions = []\<rparr>"
    and P2: "\<forall>p. p < fresh ?s3 \<longrightarrow> P p = proms ?s3 p"
    by blast
  let ?s4 = "s\<lparr>fresh := Suc (Suc (?f + ?K)), gens := G, proms := P,
      maps := (maps s)(Suc ?f := Map.empty)\<rparr>"
  have hs': "fst (hash_inputs gs ?H ?s3) = map ?pid [0..<?K]" using hs by simp
  have e4': "snd (hash_inputs gs ?H ?s3) = ?s4" using e4 by simp
  have K: "0 < ?K" using ne by simp
  have inj: "\<forall>i<?K. \<forall>j<?K. ?pid i = ?pid j \<longrightarrow> i = j" by simp
  have pre: "\<forall>i<?K. ?pid i < fresh ?s4 \<and> proms ?s4 (?pid i) = \<lparr>pstate = Pending, reactions = []\<rparr>"
    using P1 by simp
  from promise_all_barrier[OF K ipd(2) inj pre, of ?R] obtain P' r av where
    pa: "fst (promise_all (map ?pid [0..<?K]) ?s4) = fresh ?s4"
    and e6: "snd (then_p (fresh ?s4) ?R (snd (promise_all (map ?pid [0..<?K]) ?s4))) =
         ?s4\<lparr>fresh := Suc (Suc (fresh ?s4 + ?K)), proms := P', remaining := r, allvalues := av\<rparr>"
    and bar: "barrier ?pid (\<lambda>i. Suc (fresh ?s4 + i)) (fresh ?s4) (Suc (fresh ?s4 + ?K)) ?R gs (set gs)
         (?s4\<lparr>fresh := Suc (Suc (fresh ?s4 + ?K)), proms := P', remaining := r, allvalues := av\<rparr>)"
    by blast
  let ?s6 = "?s4\<lparr>fresh := Suc (Suc (fresh ?s4 + ?K)), proms := P', remaining := r, allvalues := av\<rparr>"
  have ih: "intersectByHash gs hasher s =
      (?f, snd (then_p (fst (promise_all (fst (hash_inputs gs ?H ?s3)) (snd (hash_inputs gs ?H ?s3))))
              ?R (snd (promise_all (fst (hash_inputs gs ?H ?s3)) (snd (hash_inputs gs ?H ?s3))))))"
    by (cases s) (simp add: intersectByHash_def new_generator_def alloc_def case_prod_beta Let_def)
  have ih': "intersectByHash gs hasher s = (?f, ?s6)"
    unfolding ih hs' e4' pa e6 ..
  let ?s7 = "observe_all ?f n ?s6"
  have fn: "?f \<notin> set gs" using ipd(4)[of ?f] by blast
  have Gf: "G ?f = \<lparr>registeredEmits = [], registeredCatches = [], registeredDones = []\<rparr>"
    using G2 fn by simp
  have o: "observed ?f n ?s7"
    by (simp add: observed_def observe_all_def emit_g_def done_g_def catch_g_def Gf)
  have gi: "\<forall>i<?K. gens ?s7 (gs ! i) =
        \<lparr>registeredEmits = [?H], registeredCatches = [],
          registeredDones = [ResolveUnit (Suc (Suc (?f + i)))]\<rparr>"
  proof (intro allI impI)
    fix i assume i: "i < ?K"
    then have m: "gs ! i \<in> set gs" by simp
    then have ne: "gs ! i \<noteq> ?f" using fn by metis
    have "gens s (gs ! i) = \<lparr>registeredEmits = [], registeredCatches = [], registeredDones = []\<rparr>"
      by (rule ipd(5)[OF m])
    then have "G (gs ! i) = \<lparr>registeredEmits = [?H], registeredCatches = [],
          registeredDones = [ResolveUnit (Suc (Suc (?f + i)))]\<rparr>"
      using G1 i ne by simp
    then show "gens ?s7 (gs ! i) =
        \<lparr>registeredEmits = [?H], registeredCatches = [],
          registeredDones = [ResolveUnit (Suc (Suc (?f + i)))]\<rparr>"
      using ne by (simp add: observe_all_def emit_g_def done_g_def catch_g_def)
  qed
  have bar7: "barrier ?pid (\<lambda>i. Suc (Suc (Suc (?f + ?K + i)))) (Suc (Suc (?f + ?K)))
       (Suc (Suc (Suc (?f + ?K + ?K)))) ?R gs (set gs) ?s7"
  proof -
    have "barrier ?pid (\<lambda>i. Suc (fresh ?s4 + i)) (fresh ?s4) (Suc (fresh ?s4 + ?K)) ?R gs (set gs) ?s7
        = barrier ?pid (\<lambda>i. Suc (fresh ?s4 + i)) (fresh ?s4) (Suc (fresh ?s4 + ?K)) ?R gs (set gs) ?s6"
      by (rule barrier_cong) (simp_all add: observe_all_def emit_g_def done_g_def catch_g_def)
    then show ?thesis using bar by simp
  qed
  have la: "list_all (\<lambda>g. g < ?f) gs" using ipd(4) by (simp add: list_all_iff)
  have j7: "jobs ?s7 = []" using ipd(1) by (simp add: observe_all_def emit_g_def done_g_def catch_g_def)
  have m7: "maps ?s7 (Suc ?f) = count_map (proto_members ?s7) hasher []"
    by (simp add: count_map_Nil observe_all_def emit_g_def done_g_def catch_g_def)
  have h: "hash_inv ?f gs hasher n [] (set gs) ?s7"
    unfolding hash_inv_def using la j7 o m7 gi bar7 by blast
  have t7: "timers ?s7 = timers s" by (simp add: observe_all_def emit_g_def done_g_def catch_g_def)
  have l7: "log ?s7 = log s" by (simp add: observe_all_def emit_g_def done_g_def catch_g_def)
  have p7: "proto_members ?s7 = proto_members s"
    by (simp add: observe_all_def emit_g_def done_g_def catch_g_def)
  show ?thesis unfolding ih' using h t7 l7 p7 by simp
qed

lemma completes_iff: "completes gs ts \<longleftrightarrow> (\<forall>g\<in>set gs. DispatchDone g \<in> set ts)"
  by (auto simp: completes_def list_all_iff list_ex_iff)

lemma inputs_only_Nil: "inputs_only [] ts \<Longrightarrow> ts = []"
  by (cases ts) (simp_all add: inputs_only_def)

lemma emit_tasks_obs:
  "concat (map (task_obs n) (map (\<lambda>x. DispatchEmit g x h) xs @ ds)) =
   map (SawItem n) xs @ concat (map (task_obs n) ds)"
  by (induction xs) simp_all

lemma emit_tasks_on:
  "list_all (task_on g) (map (\<lambda>x. DispatchEmit g x h) xs @ ds) = list_all (task_on g) ds"
  by (induction xs) simp_all

lemma hash_run:
  assumes ip: "inputs_pending gs s" and q: "quiet_after_done (timers s)"
  shows "fst (intersectByHash gs hasher s) = fresh s \<and>
    (\<exists>s'. run (observe_all (fresh s) n (snd (intersectByHash gs hasher s))) = Some s' \<and>
       log s' = log s @
         map (SawItem n) (hash_emitted (proto_members s) (length gs) hasher (items_of (timers s))) @
         (if completes gs (timers s) then [SawDone n] else []))"
proof (cases "gs = []")
  case True
  let ?f = "fresh s"
  note ipd = inputs_pendingD[OF ip]
  have ts: "timers s = []" using ipd(3) True by (simp add: inputs_only_Nil)
  let ?s7 = "observe_all ?f n (snd (intersectByHash [] hasher s))"
  let ?j = "Fulfil (CallDoneOf ?f) (Suc (Suc (Suc ?f))) (Arr [])"
  have f: "fst (intersectByHash [] hasher s) = ?f"
    by (simp add: intersectByHash_def new_generator_def alloc_def promise_all_def new_promise_def
        then_p_def resolve_p_def Let_def)
  have j7: "jobs ?s7 = [?j]" using ipd(1)
    by (simp add: intersectByHash_def new_generator_def alloc_def promise_all_def new_promise_def
        then_p_def resolve_p_def Let_def observe_all_def emit_g_def done_g_def catch_g_def)
  let ?s8 = "run_job ?j (?s7\<lparr>jobs := []\<rparr>)"
  have r: "run ?s7 = run ?s8" by (rule run_job_step[OF j7])
  have o: "observed ?f n ?s8"
    by (simp add: intersectByHash_def new_generator_def alloc_def promise_all_def new_promise_def
        then_p_def resolve_p_def Let_def observe_all_def emit_g_def done_g_def catch_g_def
        observed_def done_h_def)
  have j8: "jobs ?s8 = []"
    by (simp add: intersectByHash_def new_generator_def alloc_def promise_all_def new_promise_def
        then_p_def resolve_p_def Let_def observe_all_def emit_g_def done_g_def catch_g_def
        done_h_def)
  have t8: "timers ?s8 = [DispatchDone ?f]" using ts
    by (simp add: intersectByHash_def new_generator_def alloc_def promise_all_def new_promise_def
        then_p_def resolve_p_def Let_def observe_all_def emit_g_def done_g_def catch_g_def
        done_h_def)
  have l8: "log ?s8 = log s"
    by (simp add: intersectByHash_def new_generator_def alloc_def promise_all_def new_promise_def
        then_p_def resolve_p_def Let_def observe_all_def emit_g_def done_g_def catch_g_def
        done_h_def)
  have a: "list_all (task_on ?f) (timers ?s8)" unfolding t8 by simp
  have c: "concat (map (task_obs n) (timers ?s8)) = [SawDone n]" unfolding t8 by simp
  from observed_result[OF o j8 a l8 c] obtain s' where
    "run ?s8 = Some s'" "log s' = log s @ [SawDone n]" by blast
  then show ?thesis using f r True ts
    by (simp add: hash_emitted_def kth_occurrences_def completes_def)
next
  case False
  let ?f = "fresh s"
  let ?K = "length gs"
  let ?s7 = "observe_all ?f n (snd (intersectByHash gs hasher s))"
  let ?E = "\<lambda>x. DispatchEmit ?f x NoHook"
  note ipd = inputs_pendingD[OF ip]
  from hash_setup[OF ip False, of hasher n]
  have f: "fst (intersectByHash gs hasher s) = ?f"
    and h: "hash_inv ?f gs hasher n [] (set gs) ?s7"
    and t7: "timers ?s7 = timers s" and l7: "log ?s7 = log s"
    and p7: "proto_members ?s7 = proto_members s" by blast+
  have t7': "timers ?s7 = timers s @ []" using t7 by simp
  from hash_phase1[OF h t7' ipd(3)] obtain s1 where
    r: "run ?s7 = run s1" and o: "observed ?f n s1" and j1: "jobs s1 = []"
    and l1: "log s1 = log ?s7"
    and t1: "timers s1 = [] @ hash_out (proto_members ?s7) ?f ?K hasher [] (set gs) (timers s)"
    by blast
  have ne: "set gs \<noteq> {}" using False by simp
  have sp: "hash_out (proto_members s) ?f ?K hasher [] (set gs) (timers s) =
     map ?E (filter (\<lambda>x. \<not> proto_members s (hasher x))
               (kth_from ?K hasher [] (items_of (timers s)))) @
     (if completes gs (timers s) then [DispatchDone ?f] else [])"
    using hash_out_spec[OF ipd(3) q, of "set gs" "proto_members s" ?f ?K hasher "[]"] ne
    by (simp add: completes_iff)
  have t1': "timers s1 = map ?E (hash_emitted (proto_members s) ?K hasher (items_of (timers s))) @
     (if completes gs (timers s) then [DispatchDone ?f] else [])"
    using t1 sp unfolding p7 by (simp add: hash_emitted_def kth_occurrences_def)
  have a: "list_all (task_on ?f) (timers s1)" unfolding t1' emit_tasks_on by simp
  have c: "concat (map (task_obs n) (timers s1)) =
      map (SawItem n) (hash_emitted (proto_members s) ?K hasher (items_of (timers s))) @
      (if completes gs (timers s) then [SawDone n] else [])"
    unfolding t1' emit_tasks_obs by simp
  have l1': "log s1 = log s" using l1 l7 by simp
  from observed_result[OF o j1 a l1' c] obtain s' where
    "run s1 = Some s'" "log s' = log s @
      map (SawItem n) (hash_emitted (proto_members s) ?K hasher (items_of (timers s))) @
      (if completes gs (timers s) then [SawDone n] else [])" by blast
  then show ?thesis using f r by simp
qed

lemma kth_from_zero: "kth_from 0 hasher seen xs = []"
  by (induction xs arbitrary: seen) simp_all

lemma kth_from_keys:
  assumes "0 < K"
  shows "hasher ` set (kth_from K hasher seen xs) =
     {k. length (filter (\<lambda>y. hasher y = k) seen) < K \<and>
         K \<le> length (filter (\<lambda>y. hasher y = k) (seen @ xs))}"
proof (induction xs arbitrary: seen)
  case Nil
  show ?case by auto
next
  case (Cons x xs)
  show ?case
    unfolding kth_from.simps set_append image_Un Cons.IH
    by (auto simp: occurrences_def)
qed

lemma kth_from_distinct: "distinct (map hasher (kth_from K hasher seen xs))"
proof (cases "K = 0")
  case True
  then show ?thesis by (simp add: kth_from_zero)
next
  case False
  then have K: "0 < K" by simp
  show ?thesis
  proof (induction xs arbitrary: seen)
    case Nil
    show ?case by simp
  next
    case (Cons x xs)
    have "hasher x \<notin> hasher ` set (kth_from K hasher (seen @ [x]) xs)"
      if "Suc (occurrences hasher seen x) = K"
      unfolding kth_from_keys[OF K] using that by (simp add: occurrences_def)
    then show ?case using Cons.IH[of "seen @ [x]"] by auto
  qed
qed

lemma items_on_count:
  "length (filter P (items_on g ts)) \<le> length (filter P (items_of ts))"
proof (induction ts)
  case Nil
  show ?case by simp
next
  case (Cons t ts)
  then show ?case by (cases t) auto
qed

lemma items_of_emits:
  "items_of (map (\<lambda>x. DispatchEmit g x h) xs @ ts) = xs @ items_of ts"
  by (induction xs) simp_all

lemma items_on_emits:
  "items_on g' (map (\<lambda>x. DispatchEmit g x h) xs @ ts) =
     (if g = g' then xs else []) @ items_on g' ts"
  by (induction xs) auto

lemma quiet_emits:
  "quiet_after_done (map (\<lambda>x. DispatchEmit g x h) xs @ ts) = quiet_after_done ts"
  by (induction xs) simp_all

lemma inputs_only_emits:
  "inputs_only gs (map (\<lambda>x. DispatchEmit g x h) xs @ ts) \<longleftrightarrow>
     (xs = [] \<or> g \<in> set gs) \<and> inputs_only gs ts"
  by (induction xs) (auto simp: inputs_only_def list_ex_iff)

lemma two_arrays_timers:
  "timers (two_arrays A B :: ('a, 'k) state) =
     map (\<lambda>x. DispatchEmit 0 x (SetFlag 1)) A @ DispatchDone 0 #
     map (\<lambda>x. DispatchEmit 2 x (SetFlag 3)) B @ [DispatchDone 2]"
  by (simp add: two_arrays_def Generator_def new_generator_def alloc_def array_loop_eq done_h_def
      init_def)

lemma two_arrays_pending: "inputs_pending [0, 2] (two_arrays A B)"
proof -
  have "inputs_only [0, 2] (timers (two_arrays A B :: ('a, 'b) state))"
    unfolding two_arrays_timers inputs_only_emits
    by (simp add: inputs_only_Cons inputs_only_emits) (simp add: inputs_only_def)
  moreover have "jobs (two_arrays A B :: ('a, 'b) state) = []"
    "fresh (two_arrays A B :: ('a, 'b) state) = 4"
    "gens (two_arrays A B :: ('a, 'b) state) 0 =
       \<lparr>registeredEmits = [], registeredCatches = [], registeredDones = []\<rparr>"
    "gens (two_arrays A B :: ('a, 'b) state) 2 =
       \<lparr>registeredEmits = [], registeredCatches = [], registeredDones = []\<rparr>"
    by (simp_all add: two_arrays_def Generator_def new_generator_def alloc_def array_loop_eq
        done_h_def init_def)
  ultimately show ?thesis by (simp add: inputs_pending_def)
qed

lemma two_arrays_items:
  "items_of (timers (two_arrays A B :: ('a, 'k) state)) = A @ B"
  "items_on 0 (timers (two_arrays A B :: ('a, 'k) state)) = A"
  "items_on 2 (timers (two_arrays A B :: ('a, 'k) state)) = B"
  "quiet_after_done (timers (two_arrays A B :: ('a, 'k) state))"
  "completes [0, 2] (timers (two_arrays A B :: ('a, 'k) state))"
  "log (two_arrays A B :: ('a, 'k) state) = []"
  "fresh (two_arrays A B :: ('a, 'k) state) = 4"
  unfolding two_arrays_timers
       apply (simp add: items_of_emits)
      apply (simp add: items_on_emits)
     apply (simp add: items_on_emits)
    apply (simp add: quiet_emits items_on_emits)
   apply (simp add: completes_iff)
  apply (simp_all add: two_arrays_def Generator_def new_generator_def alloc_def array_loop_eq
      done_h_def init_def)
  done

lemma two_arrays_in_eq: "two_arrays_in P A B = (two_arrays A B)\<lparr>proto_members := P\<rparr>"
  by (simp add: two_arrays_in_def two_arrays_def Generator_def new_generator_def alloc_def
      array_loop_eq done_h_def init_def)

lemma two_arrays_in_pending: "inputs_pending [0, 2] (two_arrays_in P A B)"
  using two_arrays_pending[of A B] unfolding two_arrays_in_eq
  by (simp add: inputs_pending_def)

lemma two_arrays_in_items:
  "items_of (timers (two_arrays_in P A B :: ('a, 'k) state)) = A @ B"
  "quiet_after_done (timers (two_arrays_in P A B :: ('a, 'k) state))"
  "completes [0, 2] (timers (two_arrays_in P A B :: ('a, 'k) state))"
  "log (two_arrays_in P A B :: ('a, 'k) state) = []"
  "fresh (two_arrays_in P A B :: ('a, 'k) state) = 4"
  "proto_members (two_arrays_in P A B :: ('a, 'k) state) = P"
  unfolding two_arrays_in_eq by (simp_all add: two_arrays_items)

section \<open>Intersection by hash\<close>

text \<open>
  Claim C7 fails on the code for a key that names a member of \<open>Object.prototype\<close>. The
  streams \<open>[{id: 'valueOf'}, {id: 'b'}]\<close> and \<open>[{id: 'b'}, {id: 'valueOf'}]\<close> have both
  keys in common, so each key reaches the count 2 of the inputs at its second arrival;
  \<open>intersectByHash\<close> emits the item for \<open>b\<close> and never one for \<open>valueOf\<close>.
\<close>

theorem intersectByHash_drops_inherited_key:
  "map_option log
     (run (observe_all 4 7 (snd (intersectByHash [0, 2] key_of
        (two_arrays_in object_prototype
           [Prim (0, ''valueOf''), Prim (0, ''b'')] [Prim (1, ''b''), Prim (1, ''valueOf'')]))))) =
   Some [SawItem 7 (Prim (1, ''b'')), SawDone 7]"
  using hash_run[OF
      two_arrays_in_pending[of object_prototype
        "[Prim (0, ''valueOf''), Prim (0, ''b'')]" "[Prim (1, ''b''), Prim (1, ''valueOf'')]"]
      two_arrays_in_items(2)[of object_prototype
        "[Prim (0, ''valueOf''), Prim (0, ''b'')]" "[Prim (1, ''b''), Prim (1, ''valueOf'')]"],
      of key_of 7]
  by (auto simp: two_arrays_in_items hash_emitted_def kth_occurrences_def occurrences_def
      object_prototype_def)

text \<open>
  Claim C10 fails on the code for the same reason. The first stream delivers the key
  \<open>x\<close> twice and the key \<open>toString\<close> twice, the second stream delivers nothing; the
  counter of \<open>x\<close> reaches 2 within the one stream and its second item is emitted, the
  value stored under \<open>toString\<close> is no counter and no item with that key is emitted.
\<close>

theorem intersectByHash_loses_count_of_inherited_key:
  "map_option log
     (run (observe_all 4 7 (snd (intersectByHash [0, 2] key_of
        (two_arrays_in object_prototype
           [Prim (0, ''x''), Prim (1, ''x''), Prim (2, ''toString''), Prim (3, ''toString'')]
           []))))) =
   Some [SawItem 7 (Prim (1, ''x'')), SawDone 7]"
  using hash_run[OF
      two_arrays_in_pending[of object_prototype
        "[Prim (0, ''x''), Prim (1, ''x''), Prim (2, ''toString''), Prim (3, ''toString'')]" "[]"]
      two_arrays_in_items(2)[of object_prototype
        "[Prim (0, ''x''), Prim (1, ''x''), Prim (2, ''toString''), Prim (3, ''toString'')]" "[]"],
      of key_of 7]
  by (auto simp: two_arrays_in_items hash_emitted_def kth_occurrences_def occurrences_def
      object_prototype_def)

section \<open>Exclusion\<close>

lemma skip_scan_iff: "skip_scan comparator x B = list_ex (comparator x) B"
  by (induction B) simp_all

lemma exclude_loop_eq:
  "exclude_loop comparator g A B s =
     s\<lparr>timers := timers s @
        map (\<lambda>x. DispatchEmit g x NoHook) (filter (\<lambda>x. \<not> list_ex (comparator x) B) A)\<rparr>"
  by (induction A arbitrary: s) (simp_all add: skip_scan_iff emit_h_def)

lemma exclude_join_eq:
  "exclude_join va vb comparator g s =
     s\<lparr>timers := timers s @ join_tasks g comparator (arrs s (vars s va)) (arrs s (vars s vb))\<rparr>"
  by (simp add: exclude_join_def exclude_loop_eq done_h_def join_tasks_def)

lemma exclude_setup:
  assumes ip: "inputs_pending [a, b] s"
  shows "fst (exclude a b comparator s) = fresh s \<and>
    exclude_inv (fresh s) a b (case comparator of None \<Rightarrow> (\<lambda>a b. a = b) | Some c \<Rightarrow> c) n [] [] {a, b}
      (observe_all (fresh s) n (snd (exclude a b comparator s))) \<and>
    timers (observe_all (fresh s) n (snd (exclude a b comparator s))) = timers s \<and>
    log (observe_all (fresh s) n (snd (exclude a b comparator s))) = log s"
proof -
  let ?f = "fresh s"
  let ?cmp = "case comparator of None \<Rightarrow> (\<lambda>a b. a = b) | Some c \<Rightarrow> c"
  let ?R = "ExcludeJoin (?f + 1) (?f + 3) ?cmp ?f"
  let ?pid = "\<lambda>i. ?f + 5 + 2 * i"
  let ?e = "\<lparr>registeredEmits = [], registeredCatches = [], registeredDones = []\<rparr>"
  note ipd = inputs_pendingD[OF ip]
  have ab: "a \<noteq> b" "a < ?f" "b < ?f" using ipd(2) ipd(4)[of a] ipd(4)[of b] by simp_all
  have ga: "gens s a = ?e" and gb: "gens s b = ?e" using ipd(5)[of a] ipd(5)[of b] by simp_all
  let ?s4 = "s\<lparr>fresh := ?f + 9,
      gens := (gens s)(?f := ?e,
         a := \<lparr>registeredEmits = [ThenPush (?f + 6)], registeredCatches = [],
                 registeredDones = [ThenDone (?f + 6) (SetVar (?f + 1)) (?f + 5)]\<rparr>,
         b := \<lparr>registeredEmits = [ThenPush (?f + 8)], registeredCatches = [],
                 registeredDones = [ThenDone (?f + 8) (SetVar (?f + 3)) (?f + 7)]\<rparr>),
      proms := (proms s)(?f + 5 := \<lparr>pstate = Pending, reactions = []\<rparr>,
                          ?f + 7 := \<lparr>pstate = Pending, reactions = []\<rparr>),
      vars := (vars s)(?f + 1 := ?f + 2, ?f + 3 := ?f + 4),
      arrs := (arrs s)(?f + 2 := [], ?f + 4 := [], ?f + 6 := [], ?f + 8 := [])\<rparr>"
  have ex: "exclude a b comparator s =
      (?f, snd (then_p (fst (promise_all [?f + 5, ?f + 7] ?s4)) ?R
                 (snd (promise_all [?f + 5, ?f + 7] ?s4))))"
    using ab ga gb
    by (cases s) (simp add: exclude_def new_generator_def new_array_var_def alloc_def then_g_def
        new_promise_def emit_g_def done_g_def case_prod_beta Let_def eval_nat_numeral)
  have K: "0 < length [a, b]" by simp
  have d: "distinct [a, b]" using ab by simp
  have inj: "\<forall>i<length [a, b]. \<forall>j<length [a, b]. ?pid i = ?pid j \<longrightarrow> i = j" by simp
  have pre: "\<forall>i<length [a, b]. ?pid i < fresh ?s4 \<and>
      proms ?s4 (?pid i) = \<lparr>pstate = Pending, reactions = []\<rparr>"
    by (simp add: less_Suc_eq)
  have mp: "map ?pid [0..<length [a, b]] = [?f + 5, ?f + 7]" by (simp add: upt_rec)
  from promise_all_barrier[OF K d inj pre, of ?R] obtain P' r av where
    pa: "fst (promise_all (map ?pid [0..<length [a, b]]) ?s4) = fresh ?s4"
    and e6: "snd (then_p (fresh ?s4) ?R (snd (promise_all (map ?pid [0..<length [a, b]]) ?s4))) =
         ?s4\<lparr>fresh := Suc (Suc (fresh ?s4 + length [a, b])), proms := P', remaining := r,
              allvalues := av\<rparr>"
    and bar: "barrier ?pid (\<lambda>i. Suc (fresh ?s4 + i)) (fresh ?s4) (Suc (fresh ?s4 + length [a, b]))
         ?R [a, b] (set [a, b])
         (?s4\<lparr>fresh := Suc (Suc (fresh ?s4 + length [a, b])), proms := P', remaining := r,
              allvalues := av\<rparr>)"
    by blast
  let ?s6 = "?s4\<lparr>fresh := Suc (Suc (fresh ?s4 + length [a, b])), proms := P', remaining := r,
              allvalues := av\<rparr>"
  have ex': "exclude a b comparator s = (?f, ?s6)"
    unfolding ex using pa e6 unfolding mp by simp
  let ?s7 = "observe_all ?f n ?s6"
  have o: "observed ?f n ?s7" using ab
    by (simp add: observed_def observe_all_def emit_g_def done_g_def catch_g_def)
  have g7: "gens ?s7 a = \<lparr>registeredEmits = [ThenPush (?f + 6)], registeredCatches = [],
                 registeredDones = [ThenDone (?f + 6) (SetVar (?f + 1)) (?f + 5)]\<rparr>"
    "gens ?s7 b = \<lparr>registeredEmits = [ThenPush (?f + 8)], registeredCatches = [],
                 registeredDones = [ThenDone (?f + 8) (SetVar (?f + 3)) (?f + 7)]\<rparr>"
    using ab by (simp_all add: observe_all_def emit_g_def done_g_def catch_g_def)
  have bar7: "barrier ?pid (\<lambda>i. ?f + 10 + i) (?f + 9) (?f + 12) ?R [a, b] {a, b} ?s7"
  proof -
    have "barrier ?pid (\<lambda>i. Suc (fresh ?s4 + i)) (fresh ?s4) (Suc (fresh ?s4 + length [a, b]))
         ?R [a, b] (set [a, b]) ?s7
        = barrier ?pid (\<lambda>i. Suc (fresh ?s4 + i)) (fresh ?s4) (Suc (fresh ?s4 + length [a, b]))
         ?R [a, b] (set [a, b]) ?s6"
      by (rule barrier_cong) (simp_all add: observe_all_def emit_g_def done_g_def catch_g_def)
    then show ?thesis using bar by (simp add: eval_nat_numeral)
  qed
  have rest: "jobs ?s7 = []" "arrs ?s7 (?f + 6) = []" "arrs ?s7 (?f + 8) = []"
    "timers ?s7 = timers s" "log ?s7 = log s"
    using ipd(1) by (simp_all add: observe_all_def emit_g_def done_g_def catch_g_def)
  have h: "exclude_inv ?f a b ?cmp n [] [] {a, b} ?s7"
    unfolding exclude_inv_def using ab o g7 bar7 rest by simp
  show ?thesis unfolding ex' using h rest by simp
qed


lemma exclude_emit_a:
  assumes inv: "exclude_inv f a b cmp n A B T s"
    and t: "timers s = DispatchEmit a x hk # rest"
  shows "\<exists>s'. run s = run s' \<and> exclude_inv f a b cmp n (A @ [x]) B T s' \<and> log s' = log s \<and>
     timers s' = rest"
proof -
  have ab: "a \<noteq> b" using inv unfolding exclude_inv_def barrier_def by simp
  have j: "jobs s = []" using inv by (simp add: exclude_inv_def)
  have gen: "registeredEmits (gens s a) = [ThenPush (f + 6)]"
    using inv unfolding exclude_inv_def by simp
  have X: "arrs s (f + 6) = A" using inv unfolding exclude_inv_def by simp
  let ?t = "s\<lparr>timers := rest, arrs := (arrs s)(f + 6 := A @ [x])\<rparr>"
  have e: "run_task (DispatchEmit a x hk) (s\<lparr>timers := rest\<rparr>) = ?t"
    using gen X by simp
  have r: "run s = run ?t" using run_timer[OF j t] unfolding e .
  have bar: "barrier (\<lambda>i. f + 5 + 2 * i) (\<lambda>i. f + 10 + i) (f + 9) (f + 12)
       (ExcludeJoin (f + 1) (f + 3) cmp f) [a, b] T ?t"
    using inv barrier_cong[of ?t s] unfolding exclude_inv_def by simp
  have h: "exclude_inv f a b cmp n (A @ [x]) B T ?t"
    using inv bar unfolding exclude_inv_def observed_def by simp
  show ?thesis using r h by (intro exI[of _ ?t] conjI) simp_all
qed

lemma exclude_catch_a:
  assumes inv: "exclude_inv f a b cmp n A B T s"
    and t: "timers s = DispatchCatch a e # rest"
  shows "\<exists>s'. run s = run s' \<and> exclude_inv f a b cmp n A B T s' \<and> log s' = log s \<and>
     timers s' = rest"
proof -
  have j: "jobs s = []" using inv by (simp add: exclude_inv_def)
  have gen: "registeredCatches (gens s a) = []"
    using inv unfolding exclude_inv_def by simp
  let ?t = "s\<lparr>timers := rest\<rparr>"
  have e: "run_task (DispatchCatch a e) (s\<lparr>timers := rest\<rparr>) = ?t"
    using gen by simp
  have r: "run s = run ?t" using run_timer[OF j t] unfolding e .
  have bar: "barrier (\<lambda>i. f + 5 + 2 * i) (\<lambda>i. f + 10 + i) (f + 9) (f + 12)
       (ExcludeJoin (f + 1) (f + 3) cmp f) [a, b] T ?t"
    using inv barrier_cong[of ?t s] unfolding exclude_inv_def by simp
  have h: "exclude_inv f a b cmp n A B T ?t"
    using inv bar unfolding exclude_inv_def observed_def by simp
  show ?thesis using r h by (intro exI[of _ ?t] conjI) simp_all
qed

lemma exclude_done_a:
  assumes inv: "exclude_inv f a b cmp n A B T s"
    and t: "timers s = DispatchDone a # rest"
  shows "\<exists>s'. run s = run s' \<and> exclude_inv f a b cmp n A B (T - {a}) s' \<and> log s' = log s \<and>
     timers s' = rest @ (if T = {a} then join_tasks f cmp A B else [])"
proof -
  let ?pid = "\<lambda>i. f + 5 + 2 * i"
  let ?qid = "\<lambda>i. f + 10 + i"
  let ?pall = "f + 9"
  let ?qf = "f + 12"
  let ?R = "ExcludeJoin (f + 1) (f + 3) cmp f"
  have ab: "a \<noteq> b" using inv unfolding exclude_inv_def barrier_def by simp
  have j: "jobs s = []" using inv by (simp add: exclude_inv_def)
  have gen: "registeredDones (gens s a) = [ThenDone (f + 6) (SetVar (f + 1)) (f + 5)]"
    using inv unfolding exclude_inv_def by simp
  have b: "barrier ?pid ?qid ?pall ?qf ?R [a, b] T s"
    using inv by (simp add: exclude_inv_def)
  have i: "0 < length [a, b]" "[a, b] ! 0 = a" "?pid 0 = f + 5" by simp_all
  let ?s0 = "s\<lparr>timers := rest, vars := (vars s)(f + 1 := f + 6)\<rparr>"
  have b0: "barrier ?pid ?qid ?pall ?qf ?R [a, b] T ?s0"
    using b barrier_cong[of ?s0 s] by simp
  have inv0: "exclude_inv f a b cmp n A B (T - {a}) ?s0" if "barrier ?pid ?qid ?pall ?qf ?R [a, b] (T - {a}) ?s0"
    using inv that ab unfolding exclude_inv_def observed_def by simp
  let ?s1 = "run_task (DispatchDone a) (s\<lparr>timers := rest\<rparr>)"
  have pidI: "f + 5 + 2 * 0 = f + 5" by simp
  have e1: "?s1 = resolve_p (?pid 0) Undefined ?s0" unfolding pidI using gen by simp
  have r1: "run s = run ?s1" by (rule run_timer[OF j t])
  show ?thesis
  proof (cases "a \<in> T")
    case False
    then have "[a, b] ! 0 \<notin> T" by simp
    from barrier_resolve_done[OF b0 i(1) this]
    have e: "?s1 = ?s0" unfolding e1 .
    have TT: "T - {a} = T" "T \<noteq> {a}" using False by blast+
    have h: "exclude_inv f a b cmp n A B (T - {a}) ?s0"
      by (rule inv0) (use b0 TT in simp)
    show ?thesis using r1 h TT(2) unfolding e by (intro exI[of _ ?s0]) simp
  next
    case True
    then have iT: "[a, b] ! 0 \<in> T" by simp
    let ?j1 = "Fulfil (AllElement ?pall 0) (?qid 0) Undefined"
    let ?t1 = "?s0\<lparr>proms := (proms s)(?pid 0 := \<lparr>pstate = Fulfilled Undefined, reactions = []\<rparr>),
        jobs := [?j1]\<rparr>"
    from barrier_resolve_pending[OF b0 i(1) iT, of Undefined]
    have e: "?s1 = ?t1" unfolding e1 by (simp add: j)
    let ?t1' = "?t1\<lparr>jobs := []\<rparr>"
    have j1: "jobs ?t1 = [?j1]" by simp
    have r2: "run ?t1 = run (run_job ?j1 ?t1')" by (rule run_job_step[OF j1])
    have p1: "proms ?t1' = (proms ?s0)(?pid 0 := \<lparr>pstate = Fulfilled Undefined, reactions = []\<rparr>)"
      by simp
    have rm: "remaining ?t1' = remaining ?s0" by simp
    from barrier_job[OF b0 i(1) iT p1 rm] obtain P r av V where
      e2: "run_job ?j1 ?t1' = ?t1'\<lparr>proms := P, remaining := r, allvalues := av,
             jobs := jobs ?t1' @ (if T = {[a, b] ! 0} then [Fulfil ?R ?qf V] else [])\<rparr>"
      and b2: "barrier ?pid ?qid ?pall ?qf ?R [a, b] (T - {[a, b] ! 0})
         (?t1'\<lparr>proms := P, remaining := r, allvalues := av,
             jobs := jobs ?t1' @ (if T = {[a, b] ! 0} then [Fulfil ?R ?qf V] else [])\<rparr>)"
      by blast
    have r1': "run s = run ?t1" using r1 unfolding e .
    show ?thesis
    proof (cases "T = {a}")
      case False
      let ?s2 = "?s0\<lparr>proms := P, remaining := r, allvalues := av, jobs := []\<rparr>"
      have e2': "run_job ?j1 ?t1' = ?s2" using e2 False by simp
      have b2': "barrier ?pid ?qid ?pall ?qf ?R [a, b] (T - {a}) ?s2"
        using b2 False by simp
      have r3: "run s = run ?s2" using r1' r2 e2' by simp
      have h: "exclude_inv f a b cmp n A B (T - {a}) ?s2"
        using inv b2' ab unfolding exclude_inv_def observed_def by simp
      show ?thesis using r3 h False by (intro exI[of _ ?s2]) simp
    next
      case T1: True
      let ?j2 = "Fulfil ?R ?qf V"
      let ?s2 = "?s0\<lparr>proms := P, remaining := r, allvalues := av, jobs := [?j2]\<rparr>"
      have e2': "run_job ?j1 ?t1' = ?s2" using e2 T1 by simp
      have b2e: "barrier ?pid ?qid ?pall ?qf ?R [a, b] {} ?s2"
        using b2 T1 by simp
      have r3: "run s = run ?s2" using r1' r2 e2' by simp
      have j2: "jobs ?s2 = [?j2]" by simp
      let ?s2' = "?s2\<lparr>jobs := []\<rparr>"
      have r4: "run ?s2 = run (run_job ?j2 ?s2')" by (rule run_job_step[OF j2])
      have oT: "b \<notin> T" using T1 ab by auto
      have va: "vars ?s2' (f + 1) = f + 6" and vb: "vars ?s2' (f + 3) = f + 8"
        using inv oT unfolding exclude_inv_def by simp_all
      have aa: "arrs ?s2' (f + 6) = A" and bb: "arrs ?s2' (f + 8) = B"
        using inv unfolding exclude_inv_def by simp_all
      let ?s2j = "?s2'\<lparr>timers := rest @ join_tasks f cmp A B\<rparr>"
      have ej: "exclude_join (f + 1) (f + 3) cmp f ?s2' = ?s2j"
        unfolding exclude_join_eq va vb aa bb by simp
      have b2'': "barrier ?pid ?qid ?pall ?qf ?R [a, b] {} ?s2j"
        using b2e barrier_cong[of ?s2j ?s2] by simp
      then have "reactions (proms ?s2j ?qf) = []" unfolding barrier_def by blast
      from resolve_quiet[OF this, of Undefined] obtain P' where
        P': "resolve_p ?qf Undefined ?s2j = ?s2j\<lparr>proms := P'\<rparr>"
          "reactions (P' ?qf) = []" "\<forall>q. q \<noteq> ?qf \<longrightarrow> P' q = proms ?s2j q" by blast
      let ?s3 = "?s0\<lparr>timers := rest @ join_tasks f cmp A B, proms := P', remaining := r,
             allvalues := av, jobs := []\<rparr>"
      have e3: "run_job ?j2 ?s2' = ?s3" using P'(1) unfolding run_job.simps ej by simp
      have b3: "barrier ?pid ?qid ?pall ?qf ?R [a, b] {} ?s3"
        by (rule barrier_empty_qf[OF b2'']) (use P' in simp_all)
      have b3': "barrier ?pid ?qid ?pall ?qf ?R [a, b] (T - {a}) ?s3"
        using b3 T1 by simp
      have h: "exclude_inv f a b cmp n A B (T - {a}) ?s3"
        using inv b3' ab unfolding exclude_inv_def observed_def by simp
      have "run s = run ?s3" using r3 r4 e3 by simp
      then show ?thesis using h T1 by (intro exI[of _ ?s3]) simp
    qed
  qed
qed

lemma exclude_emit_b:
  assumes inv: "exclude_inv f a b cmp n A B T s"
    and t: "timers s = DispatchEmit b x hk # rest"
  shows "\<exists>s'. run s = run s' \<and> exclude_inv f a b cmp n A (B @ [x]) T s' \<and> log s' = log s \<and>
     timers s' = rest"
proof -
  have ab: "a \<noteq> b" using inv unfolding exclude_inv_def barrier_def by simp
  have j: "jobs s = []" using inv by (simp add: exclude_inv_def)
  have gen: "registeredEmits (gens s b) = [ThenPush (f + 8)]"
    using inv unfolding exclude_inv_def by simp
  have X: "arrs s (f + 8) = B" using inv unfolding exclude_inv_def by simp
  let ?t = "s\<lparr>timers := rest, arrs := (arrs s)(f + 8 := B @ [x])\<rparr>"
  have e: "run_task (DispatchEmit b x hk) (s\<lparr>timers := rest\<rparr>) = ?t"
    using gen X by simp
  have r: "run s = run ?t" using run_timer[OF j t] unfolding e .
  have bar: "barrier (\<lambda>i. f + 5 + 2 * i) (\<lambda>i. f + 10 + i) (f + 9) (f + 12)
       (ExcludeJoin (f + 1) (f + 3) cmp f) [a, b] T ?t"
    using inv barrier_cong[of ?t s] unfolding exclude_inv_def by simp
  have h: "exclude_inv f a b cmp n A (B @ [x]) T ?t"
    using inv bar unfolding exclude_inv_def observed_def by simp
  show ?thesis using r h by (intro exI[of _ ?t] conjI) simp_all
qed

lemma exclude_catch_b:
  assumes inv: "exclude_inv f a b cmp n A B T s"
    and t: "timers s = DispatchCatch b e # rest"
  shows "\<exists>s'. run s = run s' \<and> exclude_inv f a b cmp n A B T s' \<and> log s' = log s \<and>
     timers s' = rest"
proof -
  have j: "jobs s = []" using inv by (simp add: exclude_inv_def)
  have gen: "registeredCatches (gens s b) = []"
    using inv unfolding exclude_inv_def by simp
  let ?t = "s\<lparr>timers := rest\<rparr>"
  have e: "run_task (DispatchCatch b e) (s\<lparr>timers := rest\<rparr>) = ?t"
    using gen by simp
  have r: "run s = run ?t" using run_timer[OF j t] unfolding e .
  have bar: "barrier (\<lambda>i. f + 5 + 2 * i) (\<lambda>i. f + 10 + i) (f + 9) (f + 12)
       (ExcludeJoin (f + 1) (f + 3) cmp f) [a, b] T ?t"
    using inv barrier_cong[of ?t s] unfolding exclude_inv_def by simp
  have h: "exclude_inv f a b cmp n A B T ?t"
    using inv bar unfolding exclude_inv_def observed_def by simp
  show ?thesis using r h by (intro exI[of _ ?t] conjI) simp_all
qed

lemma exclude_done_b:
  assumes inv: "exclude_inv f a b cmp n A B T s"
    and t: "timers s = DispatchDone b # rest"
  shows "\<exists>s'. run s = run s' \<and> exclude_inv f a b cmp n A B (T - {b}) s' \<and> log s' = log s \<and>
     timers s' = rest @ (if T = {b} then join_tasks f cmp A B else [])"
proof -
  let ?pid = "\<lambda>i. f + 5 + 2 * i"
  let ?qid = "\<lambda>i. f + 10 + i"
  let ?pall = "f + 9"
  let ?qf = "f + 12"
  let ?R = "ExcludeJoin (f + 1) (f + 3) cmp f"
  have ab: "a \<noteq> b" using inv unfolding exclude_inv_def barrier_def by simp
  have j: "jobs s = []" using inv by (simp add: exclude_inv_def)
  have gen: "registeredDones (gens s b) = [ThenDone (f + 8) (SetVar (f + 3)) (f + 7)]"
    using inv unfolding exclude_inv_def by simp
  have b: "barrier ?pid ?qid ?pall ?qf ?R [a, b] T s"
    using inv by (simp add: exclude_inv_def)
  have i: "1 < length [a, b]" "[a, b] ! 1 = b" "?pid 1 = f + 7" by simp_all
  let ?s0 = "s\<lparr>timers := rest, vars := (vars s)(f + 3 := f + 8)\<rparr>"
  have b0: "barrier ?pid ?qid ?pall ?qf ?R [a, b] T ?s0"
    using b barrier_cong[of ?s0 s] by simp
  have inv0: "exclude_inv f a b cmp n A B (T - {b}) ?s0" if "barrier ?pid ?qid ?pall ?qf ?R [a, b] (T - {b}) ?s0"
    using inv that ab unfolding exclude_inv_def observed_def by simp
  let ?s1 = "run_task (DispatchDone b) (s\<lparr>timers := rest\<rparr>)"
  have pidI: "f + 5 + 2 * 1 = f + 7" by simp
  have e1: "?s1 = resolve_p (?pid 1) Undefined ?s0" unfolding pidI using gen by simp
  have r1: "run s = run ?s1" by (rule run_timer[OF j t])
  show ?thesis
  proof (cases "b \<in> T")
    case False
    then have "[a, b] ! 1 \<notin> T" by simp
    from barrier_resolve_done[OF b0 i(1) this]
    have e: "?s1 = ?s0" unfolding e1 .
    have TT: "T - {b} = T" "T \<noteq> {b}" using False by blast+
    have h: "exclude_inv f a b cmp n A B (T - {b}) ?s0"
      by (rule inv0) (use b0 TT in simp)
    show ?thesis using r1 h TT(2) unfolding e by (intro exI[of _ ?s0]) simp
  next
    case True
    then have iT: "[a, b] ! 1 \<in> T" by simp
    let ?j1 = "Fulfil (AllElement ?pall 1) (?qid 1) Undefined"
    let ?t1 = "?s0\<lparr>proms := (proms s)(?pid 1 := \<lparr>pstate = Fulfilled Undefined, reactions = []\<rparr>),
        jobs := [?j1]\<rparr>"
    from barrier_resolve_pending[OF b0 i(1) iT, of Undefined]
    have e: "?s1 = ?t1" unfolding e1 by (simp add: j)
    let ?t1' = "?t1\<lparr>jobs := []\<rparr>"
    have j1: "jobs ?t1 = [?j1]" by simp
    have r2: "run ?t1 = run (run_job ?j1 ?t1')" by (rule run_job_step[OF j1])
    have p1: "proms ?t1' = (proms ?s0)(?pid 1 := \<lparr>pstate = Fulfilled Undefined, reactions = []\<rparr>)"
      by simp
    have rm: "remaining ?t1' = remaining ?s0" by simp
    from barrier_job[OF b0 i(1) iT p1 rm] obtain P r av V where
      e2: "run_job ?j1 ?t1' = ?t1'\<lparr>proms := P, remaining := r, allvalues := av,
             jobs := jobs ?t1' @ (if T = {[a, b] ! 1} then [Fulfil ?R ?qf V] else [])\<rparr>"
      and b2: "barrier ?pid ?qid ?pall ?qf ?R [a, b] (T - {[a, b] ! 1})
         (?t1'\<lparr>proms := P, remaining := r, allvalues := av,
             jobs := jobs ?t1' @ (if T = {[a, b] ! 1} then [Fulfil ?R ?qf V] else [])\<rparr>)"
      by blast
    have r1': "run s = run ?t1" using r1 unfolding e .
    show ?thesis
    proof (cases "T = {b}")
      case False
      let ?s2 = "?s0\<lparr>proms := P, remaining := r, allvalues := av, jobs := []\<rparr>"
      have e2': "run_job ?j1 ?t1' = ?s2" using e2 False by simp
      have b2': "barrier ?pid ?qid ?pall ?qf ?R [a, b] (T - {b}) ?s2"
        using b2 False by simp
      have r3: "run s = run ?s2" using r1' r2 e2' by simp
      have h: "exclude_inv f a b cmp n A B (T - {b}) ?s2"
        using inv b2' ab unfolding exclude_inv_def observed_def by simp
      show ?thesis using r3 h False by (intro exI[of _ ?s2]) simp
    next
      case T1: True
      let ?j2 = "Fulfil ?R ?qf V"
      let ?s2 = "?s0\<lparr>proms := P, remaining := r, allvalues := av, jobs := [?j2]\<rparr>"
      have e2': "run_job ?j1 ?t1' = ?s2" using e2 T1 by simp
      have b2e: "barrier ?pid ?qid ?pall ?qf ?R [a, b] {} ?s2"
        using b2 T1 by simp
      have r3: "run s = run ?s2" using r1' r2 e2' by simp
      have j2: "jobs ?s2 = [?j2]" by simp
      let ?s2' = "?s2\<lparr>jobs := []\<rparr>"
      have r4: "run ?s2 = run (run_job ?j2 ?s2')" by (rule run_job_step[OF j2])
      have oT: "a \<notin> T" using T1 ab by auto
      have va: "vars ?s2' (f + 1) = f + 6" and vb: "vars ?s2' (f + 3) = f + 8"
        using inv oT unfolding exclude_inv_def by simp_all
      have aa: "arrs ?s2' (f + 6) = A" and bb: "arrs ?s2' (f + 8) = B"
        using inv unfolding exclude_inv_def by simp_all
      let ?s2j = "?s2'\<lparr>timers := rest @ join_tasks f cmp A B\<rparr>"
      have ej: "exclude_join (f + 1) (f + 3) cmp f ?s2' = ?s2j"
        unfolding exclude_join_eq va vb aa bb by simp
      have b2'': "barrier ?pid ?qid ?pall ?qf ?R [a, b] {} ?s2j"
        using b2e barrier_cong[of ?s2j ?s2] by simp
      then have "reactions (proms ?s2j ?qf) = []" unfolding barrier_def by blast
      from resolve_quiet[OF this, of Undefined] obtain P' where
        P': "resolve_p ?qf Undefined ?s2j = ?s2j\<lparr>proms := P'\<rparr>"
          "reactions (P' ?qf) = []" "\<forall>q. q \<noteq> ?qf \<longrightarrow> P' q = proms ?s2j q" by blast
      let ?s3 = "?s0\<lparr>timers := rest @ join_tasks f cmp A B, proms := P', remaining := r,
             allvalues := av, jobs := []\<rparr>"
      have e3: "run_job ?j2 ?s2' = ?s3" using P'(1) unfolding run_job.simps ej by simp
      have b3: "barrier ?pid ?qid ?pall ?qf ?R [a, b] {} ?s3"
        by (rule barrier_empty_qf[OF b2'']) (use P' in simp_all)
      have b3': "barrier ?pid ?qid ?pall ?qf ?R [a, b] (T - {b}) ?s3"
        using b3 T1 by simp
      have h: "exclude_inv f a b cmp n A B (T - {b}) ?s3"
        using inv b3' ab unfolding exclude_inv_def observed_def by simp
      have "run s = run ?s3" using r3 r4 e3 by simp
      then show ?thesis using h T1 by (intro exI[of _ ?s3]) simp
    qed
  qed
qed

lemma excl_phase1:
  assumes "exclude_inv f a b cmp n A B T s" "timers s = ts @ outq" "inputs_only [a, b] ts"
  shows "\<exists>s'. run s = run s' \<and> observed f n s' \<and> jobs s' = [] \<and> log s' = log s \<and>
     timers s' = outq @ excl_out f cmp a b A B T ts"
  using assms
proof (induction ts arbitrary: s A B T outq)
  case Nil
  then show ?case by (intro exI[of _ s]) (simp add: exclude_inv_def)
next
  case (Cons t ts)
  have ab: "a \<noteq> b" using Cons.prems(1) unfolding exclude_inv_def barrier_def by simp
  from Cons.prems(3) obtain g where g: "g \<in> set [a, b]" "task_on g t"
    and io: "inputs_only [a, b] ts"
    unfolding inputs_only_Cons by blast
  show ?case
  proof (cases t)
    case (DispatchEmit g' x hk)
    have gg: "g' = g" using g(2) DispatchEmit by simp
    consider "g = a" | "g = b" using g(1) by auto
    then obtain s1 where
      s1: "run s = run s1" "log s1 = log s" "timers s1 = ts @ outq"
        "exclude_inv f a b cmp n (if g = a then A @ [x] else A) (if g = b then B @ [x] else B) T s1"
    proof cases
      case 1
      then have t: "timers s = DispatchEmit a x hk # (ts @ outq)"
        using Cons.prems(2) DispatchEmit gg by simp
      from exclude_emit_a[OF Cons.prems(1) t] show ?thesis using that 1 ab by auto
    next
      case 2
      then have t: "timers s = DispatchEmit b x hk # (ts @ outq)"
        using Cons.prems(2) DispatchEmit gg by simp
      from exclude_emit_b[OF Cons.prems(1) t] show ?thesis using that 2 ab by auto
    qed
    from Cons.IH[OF s1(4) s1(3) io] obtain s' where
      "run s1 = run s'" "observed f n s'" "jobs s' = []" "log s' = log s1"
      "timers s' = outq @ excl_out f cmp a b (if g = a then A @ [x] else A)
          (if g = b then B @ [x] else B) T ts" by blast
    then show ?thesis using s1(1,2) DispatchEmit gg by (intro exI[of _ s']) simp
  next
    case (DispatchDone g')
    have gg: "g' = g" using g(2) DispatchDone by simp
    let ?new = "if T = {g} then join_tasks f cmp A B else []"
    consider "g = a" | "g = b" using g(1) by auto
    then obtain s1 where
      s1: "run s = run s1" "log s1 = log s" "timers s1 = (ts @ outq) @ ?new"
        "exclude_inv f a b cmp n A B (T - {g}) s1"
    proof cases
      case 1
      then have t: "timers s = DispatchDone a # (ts @ outq)"
        using Cons.prems(2) DispatchDone gg by simp
      from exclude_done_a[OF Cons.prems(1) t] show ?thesis using that 1 by auto
    next
      case 2
      then have t: "timers s = DispatchDone b # (ts @ outq)"
        using Cons.prems(2) DispatchDone gg by simp
      from exclude_done_b[OF Cons.prems(1) t] show ?thesis using that 2 by auto
    qed
    have t1: "timers s1 = ts @ (outq @ ?new)" using s1(3) by simp
    from Cons.IH[OF s1(4) t1 io] obtain s' where
      "run s1 = run s'" "observed f n s'" "jobs s' = []" "log s' = log s1"
      "timers s' = (outq @ ?new) @ excl_out f cmp a b A B (T - {g}) ts" by blast
    then show ?thesis using s1(1,2) DispatchDone gg by (intro exI[of _ s']) simp
  next
    case (DispatchCatch g' e)
    have gg: "g' = g" using g(2) DispatchCatch by simp
    consider "g = a" | "g = b" using g(1) by auto
    then obtain s1 where
      s1: "run s = run s1" "log s1 = log s" "timers s1 = ts @ outq"
        "exclude_inv f a b cmp n A B T s1"
    proof cases
      case 1
      then have t: "timers s = DispatchCatch a e # (ts @ outq)"
        using Cons.prems(2) DispatchCatch gg by simp
      from exclude_catch_a[OF Cons.prems(1) t] show ?thesis using that by auto
    next
      case 2
      then have t: "timers s = DispatchCatch b e # (ts @ outq)"
        using Cons.prems(2) DispatchCatch gg by simp
      from exclude_catch_b[OF Cons.prems(1) t] show ?thesis using that by auto
    qed
    from Cons.IH[OF s1(4) s1(3) io] obtain s' where
      "run s1 = run s'" "observed f n s'" "jobs s' = []" "log s' = log s1"
      "timers s' = outq @ excl_out f cmp a b A B T ts" by blast
    then show ?thesis using s1(1,2) DispatchCatch by (intro exI[of _ s']) simp
  next
    case (LegacyStart g' cb)
    then show ?thesis using g(2) by simp
  qed
qed

lemma excl_out_spec:
  assumes "inputs_only [a, b] ts" "quiet_after_done ts" "T \<subseteq> {a, b}" "a \<noteq> b"
    and "\<forall>g\<in>{a, b} - T. items_on g ts = []"
  shows "excl_out out cmp a b A B T ts =
     (if T \<noteq> {} \<and> (\<forall>g\<in>T. DispatchDone g \<in> set ts)
      then join_tasks out cmp (A @ items_on a ts) (B @ items_on b ts) else [])"
  using assms
proof (induction ts arbitrary: A B T)
  case Nil
  show ?case by auto
next
  case (Cons t ts)
  from Cons.prems(1) obtain g where g: "g \<in> set [a, b]" "task_on g t"
    and io: "inputs_only [a, b] ts"
    unfolding inputs_only_Cons by blast
  note ab = Cons.prems(4)
  show ?case
  proof (cases t)
    case (DispatchEmit g' x hk)
    have gg: "g' = g" using g(2) DispatchEmit by simp
    have q: "quiet_after_done ts" using Cons.prems(2) DispatchEmit by simp
    have sil: "\<forall>g\<in>{a, b} - T. items_on g ts = []"
      using Cons.prems(5) DispatchEmit by (auto split: if_splits)
    have d: "\<And>h. DispatchDone h \<in> set (t # ts) \<longleftrightarrow> DispatchDone h \<in> set ts"
      using DispatchEmit by auto
    show ?thesis
      using Cons.IH[OF io q Cons.prems(3) ab sil,
          of "if g = a then A @ [x] else A" "if g = b then B @ [x] else B"]
        DispatchEmit d gg g(1) ab by auto
  next
    case (DispatchDone g')
    have gg: "g' = g" using g(2) DispatchDone by simp
    have q: "quiet_after_done ts" and qg: "items_on g ts = []"
      using Cons.prems(2) DispatchDone gg by simp_all
    have sub: "T - {g} \<subseteq> {a, b}" using Cons.prems(3) by blast
    have sil: "\<forall>h\<in>{a, b} - (T - {g}). items_on h ts = []"
      using Cons.prems(5) DispatchDone qg by auto
    note IH = Cons.IH[OF io q sub ab sil, of A B]
    have it: "items_on a (t # ts) = items_on a ts" "items_on b (t # ts) = items_on b ts"
      using DispatchDone by simp_all
    show ?thesis
    proof (cases "T = {g}")
      case True
      then have "{a, b} - (T - {g}) = {a, b}" by blast
      then have "\<forall>h\<in>{a, b}. items_on h ts = []" using sil by metis
      then have e: "items_on a ts = []" "items_on b ts = []" by simp_all
      show ?thesis using IH True e DispatchDone gg by simp
    next
      case False
      show ?thesis
      proof (cases "g \<in> T")
        case True
        then have ne: "T - {g} \<noteq> {}" "T \<noteq> {}" using False by blast+
        have "(\<forall>h\<in>T. DispatchDone h \<in> set (t # ts)) \<longleftrightarrow> (\<forall>h\<in>T - {g}. DispatchDone h \<in> set ts)"
          using DispatchDone gg by auto
        then show ?thesis using IH False ne DispatchDone gg it by simp
      next
        case g: False
        then have e: "T - {g} = T" by blast
        have "(\<forall>h\<in>T. DispatchDone h \<in> set (t # ts)) \<longleftrightarrow> (\<forall>h\<in>T. DispatchDone h \<in> set ts)"
          using DispatchDone gg g by auto
        then show ?thesis using IH[unfolded e] False DispatchDone gg it by (simp add: e)
      qed
    qed
  next
    case (DispatchCatch g' e)
    have q: "quiet_after_done ts" using Cons.prems(2) DispatchCatch by simp
    have sil: "\<forall>g\<in>{a, b} - T. items_on g ts = []"
      using Cons.prems(5) DispatchCatch by auto
    have d: "\<And>h. DispatchDone h \<in> set (t # ts) \<longleftrightarrow> DispatchDone h \<in> set ts"
      using DispatchCatch by auto
    show ?thesis
      using Cons.IH[OF io q Cons.prems(3) ab sil, of A B] DispatchCatch d by simp
  next
    case (LegacyStart g' cb)
    then show ?thesis using g(2) by simp
  qed
qed

lemma exclude_run:
  assumes ip: "inputs_pending [a, b] s" and q: "quiet_after_done (timers s)"
  shows "fst (exclude a b comparator s) = fresh s \<and>
    (\<exists>s'. run (observe_all (fresh s) n (snd (exclude a b comparator s))) = Some s' \<and>
       log s' = log s @
         (if completes [a, b] (timers s)
          then map (SawItem n)
                 (filter (\<lambda>x. \<not> list_ex ((case comparator of None \<Rightarrow> (\<lambda>a b. a = b) | Some c \<Rightarrow> c) x)
                                    (items_on b (timers s)))
                    (items_on a (timers s))) @ [SawDone n]
          else []))"
proof -
  let ?f = "fresh s"
  let ?cmp = "case comparator of None \<Rightarrow> (\<lambda>a b. a = b) | Some c \<Rightarrow> c"
  let ?s7 = "observe_all ?f n (snd (exclude a b comparator s))"
  let ?out = "filter (\<lambda>x. \<not> list_ex (?cmp x) (items_on b (timers s))) (items_on a (timers s))"
  note ipd = inputs_pendingD[OF ip]
  have ab: "a \<noteq> b" using ipd(2) by simp
  from exclude_setup[OF ip, of comparator n]
  have f: "fst (exclude a b comparator s) = ?f"
    and h: "exclude_inv ?f a b ?cmp n [] [] {a, b} ?s7"
    and t7: "timers ?s7 = timers s" and l7: "log ?s7 = log s" by blast+
  have t7': "timers ?s7 = timers s @ []" using t7 by simp
  from excl_phase1[OF h t7' ipd(3)] obtain s1 where
    r: "run ?s7 = run s1" and o: "observed ?f n s1" and j1: "jobs s1 = []"
    and l1: "log s1 = log ?s7"
    and t1: "timers s1 = [] @ excl_out ?f ?cmp a b [] [] {a, b} (timers s)" by blast
  have sp: "excl_out ?f ?cmp a b [] [] {a, b} (timers s) =
     (if completes [a, b] (timers s)
      then join_tasks ?f ?cmp (items_on a (timers s)) (items_on b (timers s)) else [])"
    using excl_out_spec[OF ipd(3) q _ ab, of "{a, b}" ?f ?cmp "[]" "[]"]
    by (simp add: completes_iff)
  have t1': "timers s1 =
     (if completes [a, b] (timers s)
      then map (\<lambda>x. DispatchEmit ?f x NoHook) ?out @ [DispatchDone ?f] else [])"
    using t1 sp by (simp add: join_tasks_def)
  have a: "list_all (task_on ?f) (timers s1)"
    unfolding t1' using emit_tasks_on[where g = ?f and h = NoHook and xs = ?out and ds = "[]"] by simp
  have c: "concat (map (task_obs n) (timers s1)) =
      (if completes [a, b] (timers s) then map (SawItem n) ?out @ [SawDone n] else [])"
    unfolding t1' using emit_tasks_obs[where n = n and g = ?f and h = NoHook and xs = ?out and ds = "[]"] by simp
  have l1': "log s1 = log s" using l1 l7 by simp
  from observed_result[OF o j1 a l1' c] obtain s' where
    "run s1 = Some s'" "log s' = log s @
      (if completes [a, b] (timers s) then map (SawItem n) ?out @ [SawDone n] else [])" by blast
  then show ?thesis using f r by simp
qed

text \<open>
  Claim C6. Let \<open>exclude(big, small, comparator)\<close> be called on two distinct input
  streams on which nothing is registered yet, whose pending events are interleaved in any
  way and which do not emit after completing. If one of them does not complete, the
  output emits nothing. If both complete, the observer of the output sees, in the order
  of \<open>big\<close>, exactly the items of \<open>big\<close> for which no item of \<open>small\<close> satisfies the
  comparator, and then the completion; an omitted comparator is equality.
\<close>

theorem exclude_emits_difference_after_both_complete:
  assumes "inputs_pending [big, small] s" "quiet_after_done (timers s)"
  shows "fst (exclude big small comparator s) = fresh s \<and>
    (\<exists>s'. run (observe_all (fresh s) n (snd (exclude big small comparator s))) = Some s' \<and>
       log s' = log s @
         (if completes [big, small] (timers s)
          then map (SawItem n)
                 (filter (\<lambda>x. \<not> list_ex ((case comparator of None \<Rightarrow> (\<lambda>a b. a = b) | Some c \<Rightarrow> c) x)
                                    (items_on small (timers s)))
                    (items_on big (timers s))) @ [SawDone n]
          else []))"
  by (rule exclude_run[OF assms])

theorem exclude_emits_difference_after_both_complete_witness:
  "inputs_pending [0, 2] (two_arrays [Prim 1, Prim 2, Prim 3] [Prim 1, Prim 3] :: (nat, unit) state) \<and>
   quiet_after_done (timers
     (two_arrays [Prim 1, Prim 2, Prim 3] [Prim 1, Prim 3] :: (nat, unit) state)) \<and>
   (\<exists>s'. run (observe_all 4 7 (snd (exclude 0 2 None
        (two_arrays [Prim 1, Prim 2, Prim 3] [Prim 1, Prim 3] :: (nat, unit) state)))) = Some s' \<and>
      log s' = [SawItem 7 (Prim 2), SawDone 7])"
  using exclude_emits_difference_after_both_complete[of 0 2
      "two_arrays [Prim 1, Prim 2, Prim 3] [Prim 1, Prim 3] :: (nat, unit) state" None 7]
  by (simp add: two_arrays_pending two_arrays_items)

lemma barrier_frame:
  assumes b: "barrier pid qid pall qf R gs T s"
    and P: "\<forall>q. q \<noteq> x \<longrightarrow> proms s' q = proms s q"
    and x: "\<forall>i<length gs. x \<noteq> pid i \<and> x \<noteq> qid i" "x \<noteq> pall" "x \<noteq> qf"
    and r: "remaining s' = remaining s"
  shows "barrier pid qid pall qf R gs T s'"
proof -
  have p1: "\<forall>i<length gs. proms s' (pid i) = proms s (pid i)"
  proof (intro allI impI)
    fix i assume "i < length gs"
    then have "pid i \<noteq> x" using x(1) by metis
    then show "proms s' (pid i) = proms s (pid i)" using P by simp
  qed
  have p2: "\<forall>i<length gs. proms s' (qid i) = proms s (qid i)"
  proof (intro allI impI)
    fix i assume "i < length gs"
    then have "qid i \<noteq> x" using x(1) by metis
    then show "proms s' (qid i) = proms s (qid i)" using P by simp
  qed
  have p3: "proms s' pall = proms s pall" "proms s' qf = proms s qf"
    using P x(2,3) by simp_all
  show ?thesis using b unfolding barrier_def by (simp add: p1 p2 p3 r)
qed

lemma handleEmit_cmp_eq:
  "handleEmit_cmp d comparator K out x s =
     s\<lparr>dists := (dists s)(d := fst (record_item K comparator x (dists s d))),
       timers := timers s @
         (case snd (record_item K comparator x (dists s d)) of
            Some y \<Rightarrow> [DispatchEmit out y NoHook] | None \<Rightarrow> [])\<rparr>"
  by (cases s)
    (auto simp: handleEmit_cmp_def record_item_def emit_h_def Let_def split: option.splits)

lemma cmp_inv_frame:
  assumes "cmp_inv f gs comparator n ds T s"
    and "jobs s' = []" "gens s' = gens s" "dists s' (Suc f) = ds'"
    and "proms s' = proms s" "remaining s' = remaining s"
  shows "cmp_inv f gs comparator n ds' T s'"
  using assms unfolding cmp_inv_def observed_def
  by (simp add: barrier_cong[of s' s])

lemma cmp_step_emit:
  assumes inv: "cmp_inv f gs comparator n ds T s"
    and t: "timers s = DispatchEmit g x hk # rest" and g: "g \<in> set gs"
  shows "\<exists>s'. run s = run s' \<and>
     cmp_inv f gs comparator n (fst (record_item (length gs) comparator x ds)) T s' \<and>
     log s' = log s \<and>
     timers s' = rest @ (case snd (record_item (length gs) comparator x ds) of
                           Some y \<Rightarrow> [DispatchEmit f y NoHook] | None \<Rightarrow> [])"
proof -
  let ?ta = "\<lambda>i. Suc (Suc (Suc (Suc (f + 3 * i))))"
  from g obtain i where i: "i < length gs" "gs ! i = g" by (auto simp: in_set_conv_nth)
  have j: "jobs s = []" using inv by (simp add: cmp_inv_def)
  have gen: "registeredEmits (gens s g) =
      [HandleEmitCmp (Suc f) comparator (length gs) f, ThenPush (?ta i)]"
    using inv i unfolding cmp_inv_def by auto
  have d: "dists s (Suc f) = ds" using inv by (simp add: cmp_inv_def)
  let ?s' = "run_task (DispatchEmit g x hk) (s\<lparr>timers := rest\<rparr>)"
  let ?t = "s\<lparr>dists := (dists s)(Suc f := fst (record_item (length gs) comparator x ds)),
       timers := rest @ (case snd (record_item (length gs) comparator x ds) of
                           Some y \<Rightarrow> [DispatchEmit f y NoHook] | None \<Rightarrow> []),
       arrs := (arrs s)(?ta i := arrs s (?ta i) @ [x])\<rparr>"
  have e: "?s' = ?t"
    using gen d by (simp add: handleEmit_cmp_eq)
  have r: "run s = run ?t" using run_timer[OF j t] unfolding e .
  have h: "cmp_inv f gs comparator n (fst (record_item (length gs) comparator x ds)) T ?t"
    by (rule cmp_inv_frame[OF inv]) (simp_all add: j)
  show ?thesis using r h by (intro exI[of _ ?t] conjI) simp_all
qed

lemma cmp_step_catch:
  assumes inv: "cmp_inv f gs comparator n ds T s"
    and t: "timers s = DispatchCatch g e # rest" and g: "g \<in> set gs"
  shows "\<exists>s'. run s = run s' \<and> cmp_inv f gs comparator n ds T s' \<and> log s' = log s \<and>
     timers s' = rest"
proof -
  from g obtain i where i: "i < length gs" "gs ! i = g" by (auto simp: in_set_conv_nth)
  have j: "jobs s = []" using inv by (simp add: cmp_inv_def)
  have gen: "registeredCatches (gens s g) = []"
    using inv i unfolding cmp_inv_def by auto
  let ?s' = "run_task (DispatchCatch g e) (s\<lparr>timers := rest\<rparr>)"
  let ?t = "s\<lparr>timers := rest\<rparr>"
  have e: "?s' = ?t" using gen by simp
  have r: "run s = run ?t" using run_timer[OF j t] unfolding e .
  have h: "cmp_inv f gs comparator n ds T ?t"
    by (rule cmp_inv_frame[OF inv]) (use inv in \<open>simp_all add: j cmp_inv_def\<close>)
  show ?thesis using r h by (intro exI[of _ ?t] conjI) simp_all
qed

lemma cmp_ids:
  assumes "i < K" "k < K"
  shows "Suc (Suc (Suc (f + 3 * i))) \<noteq> Suc (Suc (f + 3 * k))"
    and "Suc (Suc (Suc (f + 3 * i))) \<noteq> Suc (Suc (Suc (f + 3 * K + k)))"
    and "Suc (Suc (Suc (f + 3 * i))) \<noteq> Suc (Suc (f + 3 * K))"
    and "Suc (Suc (Suc (f + 3 * i))) \<noteq> Suc (Suc (Suc (f + 3 * K + K)))"
    and "Suc (Suc (Suc (f + 3 * i))) = Suc (Suc (Suc (f + 3 * k))) \<longleftrightarrow> i = k"
  using assms by presburger+

lemma cmp_step_done:
  assumes inv: "cmp_inv f gs comparator n ds T s"
    and t: "timers s = DispatchDone g # rest" and g: "g \<in> set gs"
  shows "\<exists>s'. run s = run s' \<and> cmp_inv f gs comparator n ds (T - {g}) s' \<and> log s' = log s \<and>
     timers s' = rest @ (if T = {g} then [DispatchDone f] else [])"
proof -
  let ?K = "length gs"
  let ?pid = "\<lambda>i. Suc (Suc (f + 3 * i))"
  let ?pt = "\<lambda>i. Suc (Suc (Suc (f + 3 * i)))"
  let ?ta = "\<lambda>i. Suc (Suc (Suc (Suc (f + 3 * i))))"
  let ?qid = "\<lambda>i. Suc (Suc (Suc (f + 3 * ?K + i)))"
  let ?pall = "Suc (Suc (f + 3 * ?K))"
  let ?qf = "Suc (Suc (Suc (f + 3 * ?K + ?K)))"
  let ?R = "CallDoneOf f"
  from g obtain i where i: "i < length gs" "gs ! i = g" by (auto simp: in_set_conv_nth)
  have j: "jobs s = []" using inv by (simp add: cmp_inv_def)
  have gen: "registeredDones (gens s g) = [ThenDone (?ta i) (ResolveOuter (?pid i)) (?pt i)]"
    using inv i unfolding cmp_inv_def by auto
  have b: "barrier ?pid ?qid ?pall ?qf ?R gs T s"
    using inv by (simp add: cmp_inv_def)
  have rt: "\<forall>k<?K. reactions (proms s (?pt k)) = []"
    using inv unfolding cmp_inv_def by blast
  have rti: "reactions (proms s (?pt i)) = []" using rt i(1) by blast
  note ids = cmp_ids[OF i(1), of _ f]
  have x1: "\<forall>k<?K. ?pt i \<noteq> ?pid k \<and> ?pt i \<noteq> ?qid k" using ids(1,2) by blast
  have x2: "?pt i \<noteq> ?pall" "?pt i \<noteq> ?qf" using ids(3,4)[OF i(1)] by blast+
  have x3: "?pt i \<noteq> ?pid i" using ids(1)[OF i(1)] .
  have y1: "\<forall>k<?K. ?pt k \<noteq> ?pall \<and> ?pt k \<noteq> ?qid i \<and> ?pt k \<noteq> ?qf \<and> ?pt k \<noteq> ?pid i"
    using cmp_ids[of _ ?K i f] i(1) by blast
  let ?s0 = "s\<lparr>timers := rest\<rparr>"
  have b0: "barrier ?pid ?qid ?pall ?qf ?R gs T ?s0"
    using b by (simp add: barrier_cong[of ?s0 s])
  let ?s1 = "run_task (DispatchDone g) ?s0"
  have e1: "?s1 = resolve_p (?pt i) Undefined (resolve_p (?pid i) Undefined ?s0)"
    using gen by simp
  have r1: "run s = run ?s1" by (rule run_timer[OF j t])
  show ?thesis
  proof (cases "g \<in> T")
    case False
    then have "gs ! i \<notin> T" using i by simp
    from barrier_resolve_done[OF b0 i(1) this]
    have e: "?s1 = resolve_p (?pt i) Undefined ?s0" unfolding e1 by simp
    have "reactions (proms ?s0 (?pt i)) = []" using rti by simp
    from resolve_quiet[OF this, of Undefined] obtain P where
      P: "resolve_p (?pt i) Undefined ?s0 = ?s0\<lparr>proms := P\<rparr>" "reactions (P (?pt i)) = []"
         "\<forall>q. q \<noteq> ?pt i \<longrightarrow> P q = proms ?s0 q" by blast
    let ?s2 = "s\<lparr>timers := rest, proms := P\<rparr>"
    have e2: "?s1 = ?s2" unfolding e P(1) by simp
    have b2: "barrier ?pid ?qid ?pall ?qf ?R gs T ?s2"
      by (rule barrier_frame[OF b, of "?pt i"]) (use P(3) x1 x2 in simp_all)
    have rt2: "\<forall>k<?K. reactions (proms ?s2 (?pt k)) = []"
    proof (intro allI impI)
      fix k assume k: "k < ?K"
      show "reactions (proms ?s2 (?pt k)) = []"
      proof (cases "k = i")
        case True
        then show ?thesis using P(2) by simp
      next
        case False
        then have "?pt k \<noteq> ?pt i" by simp
        then have "P (?pt k) = proms s (?pt k)" using P(3) by simp
        then show ?thesis using rt k by simp
      qed
    qed
    have h: "cmp_inv f gs comparator n ds T ?s2"
      using inv b2 rt2 unfolding cmp_inv_def observed_def by simp
    have "T - {g} = T" "T \<noteq> {g}" using False by blast+
    then show ?thesis using r1 h unfolding e2 by (intro exI[of _ ?s2]) simp
  next
    case True
    then have iT: "gs ! i \<in> T" using i by simp
    let ?j1 = "Fulfil (AllElement ?pall i) (?qid i) Undefined"
    let ?F = "\<lparr>pstate = Fulfilled Undefined, reactions = []\<rparr> :: 'a promise"
    let ?t1 = "s\<lparr>timers := rest, proms := (proms s)(?pid i := ?F), jobs := [?j1]\<rparr>"
    from barrier_resolve_pending[OF b0 i(1) iT, of Undefined]
    have e: "resolve_p (?pid i) Undefined ?s0 = ?t1" by (simp add: j)
    have "reactions (proms ?t1 (?pt i)) = []" using rti x3 by simp
    from resolve_quiet[OF this, of Undefined] obtain P where
      P: "resolve_p (?pt i) Undefined ?t1 = ?t1\<lparr>proms := P\<rparr>" "reactions (P (?pt i)) = []"
         "\<forall>q. q \<noteq> ?pt i \<longrightarrow> P q = proms ?t1 q" by blast
    let ?t2 = "s\<lparr>timers := rest, proms := P, jobs := [?j1]\<rparr>"
    have e': "?s1 = ?t2" unfolding e1 e P(1) by simp
    have r1': "run s = run ?t2" using r1 unfolding e' .
    have Pi: "P (?pid i) = ?F" using P(3) x3 by simp
    let ?u = "s\<lparr>proms := P(?pid i := proms s (?pid i))\<rparr>"
    have bu: "barrier ?pid ?qid ?pall ?qf ?R gs T ?u"
      by (rule barrier_frame[OF b, of "?pt i"]) (use P(3) x1 x2 in simp_all)
    let ?t2' = "?t2\<lparr>jobs := []\<rparr>"
    have j2: "jobs ?t2 = [?j1]" by simp
    have r2: "run ?t2 = run (run_job ?j1 ?t2')" by (rule run_job_step[OF j2])
    have p1: "proms ?t2' = (proms ?u)(?pid i := ?F)" using Pi by (simp add: fun_upd_idem)
    have rm: "remaining ?t2' = remaining ?u" by simp
    from barrier_job[OF bu i(1) iT p1 rm] obtain P2 r av V where
      e2: "run_job ?j1 ?t2' = ?t2'\<lparr>proms := P2, remaining := r, allvalues := av,
             jobs := jobs ?t2' @ (if T = {gs ! i} then [Fulfil ?R ?qf V] else [])\<rparr>"
      and b2: "barrier ?pid ?qid ?pall ?qf ?R gs (T - {gs ! i})
         (?t2'\<lparr>proms := P2, remaining := r, allvalues := av,
             jobs := jobs ?t2' @ (if T = {gs ! i} then [Fulfil ?R ?qf V] else [])\<rparr>)"
      and fr: "\<forall>q. q \<noteq> ?pall \<and> q \<noteq> ?qid i \<longrightarrow> P2 q = proms ?t2' q"
      by blast
    have rtP: "\<forall>k<?K. reactions (P (?pt k)) = []"
    proof (intro allI impI)
      fix k assume k: "k < ?K"
      show "reactions (P (?pt k)) = []"
      proof (cases "k = i")
        case True
        then show ?thesis using P(2) by simp
      next
        case False
        then have "?pt k \<noteq> ?pt i" by simp
        moreover have "?pt k \<noteq> ?pid i" using y1 k by blast
        ultimately have "P (?pt k) = proms s (?pt k)" using P(3) by simp
        then show ?thesis using rt k by simp
      qed
    qed
    have rtP2: "\<forall>k<?K. reactions (P2 (?pt k)) = []"
    proof (intro allI impI)
      fix k assume k: "k < ?K"
      then have "?pt k \<noteq> ?pall \<and> ?pt k \<noteq> ?qid i" using y1 by blast
      then have "P2 (?pt k) = P (?pt k)" using fr by simp
      then show "reactions (P2 (?pt k)) = []" using rtP k by simp
    qed
    show ?thesis
    proof (cases "T = {g}")
      case False
      let ?s2 = "s\<lparr>timers := rest, proms := P2, remaining := r, allvalues := av, jobs := []\<rparr>"
      have e2': "run_job ?j1 ?t2' = ?s2" using e2 False i(2) by simp
      have b2': "barrier ?pid ?qid ?pall ?qf ?R gs (T - {g}) ?s2"
        using b2 False i(2) by simp
      have r3: "run s = run ?s2" using r1' r2 e2' by simp
      have h: "cmp_inv f gs comparator n ds (T - {g}) ?s2"
        using inv b2' rtP2 unfolding cmp_inv_def observed_def by simp
      show ?thesis using r3 h False by (intro exI[of _ ?s2]) simp
    next
      case T1: True
      let ?j2 = "Fulfil ?R ?qf V"
      let ?s2 = "s\<lparr>timers := rest, proms := P2, remaining := r, allvalues := av, jobs := [?j2]\<rparr>"
      have e2': "run_job ?j1 ?t2' = ?s2" using e2 T1 i(2) by simp
      have b2e: "barrier ?pid ?qid ?pall ?qf ?R gs {} ?s2"
        using b2 T1 i(2) by simp
      have r3: "run s = run ?s2" using r1' r2 e2' by simp
      have j2': "jobs ?s2 = [?j2]" by simp
      let ?s2' = "?s2\<lparr>jobs := []\<rparr>"
      have r4: "run ?s2 = run (run_job ?j2 ?s2')" by (rule run_job_step[OF j2'])
      have b2'': "barrier ?pid ?qid ?pall ?qf ?R gs {} (done_h f ?s2')"
        using b2e barrier_cong[of "done_h f ?s2'" ?s2] by (simp add: done_h_def)
      then have "reactions (proms (done_h f ?s2') ?qf) = []" unfolding barrier_def by blast
      from resolve_quiet[OF this, of Undefined] obtain P' where
        P': "resolve_p ?qf Undefined (done_h f ?s2') = (done_h f ?s2')\<lparr>proms := P'\<rparr>"
          "reactions (P' ?qf) = []" "\<forall>q. q \<noteq> ?qf \<longrightarrow> P' q = proms (done_h f ?s2') q" by blast
      let ?s3 = "s\<lparr>timers := rest @ [DispatchDone f], proms := P', remaining := r, allvalues := av,
             jobs := []\<rparr>"
      have e3: "run_job ?j2 ?s2' = ?s3" using P'(1) by (simp add: done_h_def)
      have b3: "barrier ?pid ?qid ?pall ?qf ?R gs {} ?s3"
        by (rule barrier_empty_qf[OF b2'']) (use P' in \<open>simp_all add: done_h_def\<close>)
      have b3': "barrier ?pid ?qid ?pall ?qf ?R gs (T - {g}) ?s3"
        using b3 T1 by simp
      have rtP': "\<forall>k<?K. reactions (P' (?pt k)) = []"
      proof (intro allI impI)
        fix k assume k: "k < ?K"
        then have "?pt k \<noteq> ?qf" using y1 by blast
        then have "P' (?pt k) = P2 (?pt k)" using P'(3) by (simp add: done_h_def)
        then show "reactions (P' (?pt k)) = []" using rtP2 k by simp
      qed
      have h: "cmp_inv f gs comparator n ds (T - {g}) ?s3"
        using inv b3' rtP' unfolding cmp_inv_def observed_def by simp
      have "run s = run ?s3" using r3 r4 e3 by simp
      then show ?thesis using h T1 by (intro exI[of _ ?s3]) simp
    qed
  qed
qed

lemma cmp_phase1:
  assumes "cmp_inv f gs comparator n ds T s" "timers s = ts @ outq" "inputs_only gs ts"
  shows "\<exists>s'. run s = run s' \<and> observed f n s' \<and> jobs s' = [] \<and> log s' = log s \<and>
     timers s' = outq @ cmp_out f (length gs) comparator ds T ts"
  using assms
proof (induction ts arbitrary: s ds T outq)
  case Nil
  then show ?case by (intro exI[of _ s]) (simp add: cmp_inv_def)
next
  case (Cons t ts)
  from Cons.prems(3) obtain g where g: "g \<in> set gs" "task_on g t" and io: "inputs_only gs ts"
    unfolding inputs_only_Cons by blast
  show ?case
  proof (cases t)
    case (DispatchEmit g' x hk)
    then have t: "timers s = DispatchEmit g x hk # (ts @ outq)" using Cons.prems(2) g(2) by simp
    let ?ds = "fst (record_item (length gs) comparator x ds)"
    let ?new = "case snd (record_item (length gs) comparator x ds) of
                  Some y \<Rightarrow> [DispatchEmit f y NoHook] | None \<Rightarrow> []"
    from cmp_step_emit[OF Cons.prems(1) t g(1)] obtain s1 where
      s1: "run s = run s1" "cmp_inv f gs comparator n ?ds T s1" "log s1 = log s"
        "timers s1 = (ts @ outq) @ ?new" by blast
    have t1: "timers s1 = ts @ (outq @ ?new)" using s1(4) by simp
    from Cons.IH[OF s1(2) t1 io] obtain s' where
      "run s1 = run s'" "observed f n s'" "jobs s' = []" "log s' = log s1"
      "timers s' = (outq @ ?new) @ cmp_out f (length gs) comparator ?ds T ts" by blast
    then show ?thesis using s1(1,3) DispatchEmit by (intro exI[of _ s']) simp
  next
    case (DispatchDone g')
    then have t: "timers s = DispatchDone g # (ts @ outq)" using Cons.prems(2) g(2) by simp
    let ?new = "if T = {g} then [DispatchDone f] else []"
    from cmp_step_done[OF Cons.prems(1) t g(1)] obtain s1 where
      s1: "run s = run s1" "cmp_inv f gs comparator n ds (T - {g}) s1" "log s1 = log s"
        "timers s1 = (ts @ outq) @ ?new" by blast
    have t1: "timers s1 = ts @ (outq @ ?new)" using s1(4) by simp
    have gg: "g' = g" using g(2) DispatchDone by simp
    from Cons.IH[OF s1(2) t1 io] obtain s' where
      "run s1 = run s'" "observed f n s'" "jobs s' = []" "log s' = log s1"
      "timers s' = (outq @ ?new) @ cmp_out f (length gs) comparator ds (T - {g}) ts" by blast
    then show ?thesis using s1(1,3) DispatchDone gg by (intro exI[of _ s']) simp
  next
    case (DispatchCatch g' e)
    then have t: "timers s = DispatchCatch g e # (ts @ outq)" using Cons.prems(2) g(2) by simp
    from cmp_step_catch[OF Cons.prems(1) t g(1)] obtain s1 where
      s1: "run s = run s1" "cmp_inv f gs comparator n ds T s1" "log s1 = log s"
        "timers s1 = ts @ outq" by blast
    from Cons.IH[OF s1(2) s1(4) io] obtain s' where
      "run s1 = run s'" "observed f n s'" "jobs s' = []" "log s' = log s1"
      "timers s' = outq @ cmp_out f (length gs) comparator ds T ts" by blast
    then show ?thesis using s1(1,3) DispatchCatch by (intro exI[of _ s']) simp
  next
    case (LegacyStart g' cb)
    then show ?thesis using g(2) by simp
  qed
qed

lemma cmp_out_spec:
  assumes "inputs_only gs ts" "quiet_after_done ts" "T \<subseteq> set gs"
    and "\<forall>g\<in>set gs - T. items_on g ts = []"
  shows "cmp_out out K comparator ds T ts =
     map (\<lambda>x. DispatchEmit out x NoHook) (cmp_from K comparator ds (items_of ts)) @
     (if T \<noteq> {} \<and> (\<forall>g\<in>T. DispatchDone g \<in> set ts) then [DispatchDone out] else [])"
  using assms
proof (induction ts arbitrary: ds T)
  case Nil
  show ?case by auto
next
  case (Cons t ts)
  from Cons.prems(1) obtain g where g: "g \<in> set gs" "task_on g t" and io: "inputs_only gs ts"
    unfolding inputs_only_Cons by blast
  show ?case
  proof (cases t)
    case (DispatchEmit g' x hk)
    have q: "quiet_after_done ts" using Cons.prems(2) DispatchEmit by simp
    have sil: "\<forall>g\<in>set gs - T. items_on g ts = []"
      using Cons.prems(4) DispatchEmit by (auto split: if_splits)
    have d: "\<And>h. DispatchDone h \<in> set (t # ts) \<longleftrightarrow> DispatchDone h \<in> set ts"
      using DispatchEmit by auto
    show ?thesis
      using Cons.IH[OF io q Cons.prems(3) sil, of "fst (record_item K comparator x ds)"]
        DispatchEmit d by (simp split: option.splits)
  next
    case (DispatchDone g')
    have gg: "g' = g" using g(2) DispatchDone by simp
    have q: "quiet_after_done ts" and qg: "items_on g ts = []"
      using Cons.prems(2) DispatchDone gg by simp_all
    have sub: "T - {g} \<subseteq> set gs" using Cons.prems(3) by blast
    have sil: "\<forall>h\<in>set gs - (T - {g}). items_on h ts = []"
      using Cons.prems(4) DispatchDone qg by auto
    note IH = Cons.IH[OF io q sub sil, of ds]
    show ?thesis
    proof (cases "T = {g}")
      case True
      then have "set gs - (T - {g}) = set gs" by blast
      then have "\<forall>h\<in>set gs. items_on h ts = []" using sil by metis
      then have e: "items_of ts = []" by (rule items_of_silent[OF io])
      show ?thesis using IH True e DispatchDone gg by simp
    next
      case False
      show ?thesis
      proof (cases "g \<in> T")
        case True
        then have ne: "T - {g} \<noteq> {}" "T \<noteq> {}" using False by blast+
        have "(\<forall>h\<in>T. DispatchDone h \<in> set (t # ts)) \<longleftrightarrow> (\<forall>h\<in>T - {g}. DispatchDone h \<in> set ts)"
          using DispatchDone gg by auto
        then show ?thesis using IH False ne DispatchDone gg by simp
      next
        case g: False
        then have e: "T - {g} = T" by blast
        have "(\<forall>h\<in>T. DispatchDone h \<in> set (t # ts)) \<longleftrightarrow> (\<forall>h\<in>T. DispatchDone h \<in> set ts)"
          using DispatchDone gg g by auto
        then show ?thesis using IH[unfolded e] False DispatchDone gg by (simp add: e)
      qed
    qed
  next
    case (DispatchCatch g' e)
    have q: "quiet_after_done ts" using Cons.prems(2) DispatchCatch by simp
    have sil: "\<forall>g\<in>set gs - T. items_on g ts = []"
      using Cons.prems(4) DispatchCatch by auto
    have d: "\<And>h. DispatchDone h \<in> set (t # ts) \<longleftrightarrow> DispatchDone h \<in> set ts"
      using DispatchCatch by auto
    show ?thesis
      using Cons.IH[OF io q Cons.prems(3) sil, of ds] DispatchCatch d by simp
  next
    case (LegacyStart g' cb)
    then show ?thesis using g(2) by simp
  qed
qed

lemma cmp_inputs_eq:
  assumes "distinct gs"
  shows "fst (cmp_inputs gs h s) = map (\<lambda>i. fresh s + 3 * i) [0..<length gs] \<and>
    (\<exists>G P A. snd (cmp_inputs gs h s) =
         s\<lparr>fresh := fresh s + 3 * length gs, gens := G, proms := P, arrs := A\<rparr> \<and>
       (\<forall>i<length gs. G (gs ! i) = (gens s (gs ! i))
           \<lparr>registeredEmits := registeredEmits (gens s (gs ! i)) @
               [h, ThenPush (Suc (Suc (fresh s + 3 * i)))],
            registeredDones := registeredDones (gens s (gs ! i)) @
               [ThenDone (Suc (Suc (fresh s + 3 * i))) (ResolveOuter (fresh s + 3 * i))
                  (Suc (fresh s + 3 * i))]\<rparr>) \<and>
       (\<forall>g. g \<notin> set gs \<longrightarrow> G g = gens s g) \<and>
       (\<forall>i<length gs. P (fresh s + 3 * i) = \<lparr>pstate = Pending, reactions = []\<rparr> \<and>
                       P (Suc (fresh s + 3 * i)) = \<lparr>pstate = Pending, reactions = []\<rparr>) \<and>
       (\<forall>p. p < fresh s \<longrightarrow> P p = proms s p))"
  using assms
proof (induction gs arbitrary: s)
  case Nil
  have "s = s\<lparr>gens := gens s, proms := proms s, arrs := arrs s\<rparr>" by simp
  then have "\<exists>G P A. s = s\<lparr>gens := G, proms := P, arrs := A\<rparr> \<and>
           (\<forall>g. G g = gens s g) \<and> (\<forall>p<fresh s. P p = proms s p)"
    by (intro exI[of _ "gens s"] exI[of _ "proms s"] exI[of _ "arrs s"]) simp
  then show ?case by simp
next
  case (Cons g gs)
  let ?f = "fresh s"
  let ?s2 = "s\<lparr>fresh := Suc (Suc (Suc ?f)),
       gens := (gens s)(g := (gens s g)
           \<lparr>registeredEmits := registeredEmits (gens s g) @ [h, ThenPush (Suc (Suc ?f))],
            registeredDones := registeredDones (gens s g) @
               [ThenDone (Suc (Suc ?f)) (ResolveOuter ?f) (Suc ?f)]\<rparr>),
       proms := (proms s)(?f := \<lparr>pstate = Pending, reactions = []\<rparr>,
                          Suc ?f := \<lparr>pstate = Pending, reactions = []\<rparr>),
       arrs := (arrs s)(Suc (Suc ?f) := [])\<rparr>"
  have s2: "snd (then_g g (ResolveOuter ?f) (emit_g g h (snd (new_promise s)))) = ?s2"
    by (cases s) (simp add: then_g_def done_g_def emit_g_def new_promise_def alloc_def Let_def)
  have d: "distinct gs" and gn: "g \<notin> set gs" using Cons.prems by simp_all
  from Cons.IH[OF d, of ?s2] obtain G P A where
    f: "fst (cmp_inputs gs h ?s2) = map (\<lambda>i. fresh ?s2 + 3 * i) [0..<length gs]"
    and e: "snd (cmp_inputs gs h ?s2) =
        ?s2\<lparr>fresh := fresh ?s2 + 3 * length gs, gens := G, proms := P, arrs := A\<rparr>"
    and G1: "\<forall>i<length gs. G (gs ! i) = (gens ?s2 (gs ! i))
           \<lparr>registeredEmits := registeredEmits (gens ?s2 (gs ! i)) @
               [h, ThenPush (Suc (Suc (fresh ?s2 + 3 * i)))],
            registeredDones := registeredDones (gens ?s2 (gs ! i)) @
               [ThenDone (Suc (Suc (fresh ?s2 + 3 * i))) (ResolveOuter (fresh ?s2 + 3 * i))
                  (Suc (fresh ?s2 + 3 * i))]\<rparr>"
    and G2: "\<forall>g'. g' \<notin> set gs \<longrightarrow> G g' = gens ?s2 g'"
    and P1: "\<forall>i<length gs. P (fresh ?s2 + 3 * i) = \<lparr>pstate = Pending, reactions = []\<rparr> \<and>
                       P (Suc (fresh ?s2 + 3 * i)) = \<lparr>pstate = Pending, reactions = []\<rparr>"
    and P2: "\<forall>p. p < fresh ?s2 \<longrightarrow> P p = proms ?s2 p"
    by blast
  have sh: "\<And>k. fresh ?s2 + 3 * k = ?f + 3 * Suc k" by simp
  have fp: "fst (new_promise s) = ?f" by (simp add: new_promise_def)
  have u0: "cmp_inputs (g # gs) h s =
      (?f # fst (cmp_inputs gs h
                  (snd (then_g g (ResolveOuter ?f) (emit_g g h (snd (new_promise s)))))),
       snd (cmp_inputs gs h
                  (snd (then_g g (ResolveOuter ?f) (emit_g g h (snd (new_promise s)))))))"
    by (simp add: case_prod_beta Let_def fp)
  have u: "cmp_inputs (g # gs) h s =
      (?f # fst (cmp_inputs gs h ?s2), snd (cmp_inputs gs h ?s2))"
    unfolding u0 s2 ..
  have c1: "fst (cmp_inputs (g # gs) h s) = map (\<lambda>i. ?f + 3 * i) [0..<length (g # gs)]"
    unfolding u using f unfolding sh by (simp add: map_upt_Suc del: upt_Suc mult_Suc_right)
  have c2: "snd (cmp_inputs (g # gs) h s) =
      s\<lparr>fresh := ?f + 3 * length (g # gs), gens := G, proms := P, arrs := A\<rparr>"
    unfolding u using e by simp
  have c3: "\<forall>i<length (g # gs). G ((g # gs) ! i) = (gens s ((g # gs) ! i))
           \<lparr>registeredEmits := registeredEmits (gens s ((g # gs) ! i)) @
               [h, ThenPush (Suc (Suc (?f + 3 * i)))],
            registeredDones := registeredDones (gens s ((g # gs) ! i)) @
               [ThenDone (Suc (Suc (?f + 3 * i))) (ResolveOuter (?f + 3 * i))
                  (Suc (?f + 3 * i))]\<rparr>"
  proof (intro allI impI)
    fix i assume i: "i < length (g # gs)"
    show "G ((g # gs) ! i) = (gens s ((g # gs) ! i))
           \<lparr>registeredEmits := registeredEmits (gens s ((g # gs) ! i)) @
               [h, ThenPush (Suc (Suc (?f + 3 * i)))],
            registeredDones := registeredDones (gens s ((g # gs) ! i)) @
               [ThenDone (Suc (Suc (?f + 3 * i))) (ResolveOuter (?f + 3 * i))
                  (Suc (?f + 3 * i))]\<rparr>"
    proof (cases i)
      case 0
      then show ?thesis using G2 gn by simp
    next
      case (Suc k)
      then have k: "k < length gs" using i by simp
      then have "gs ! k \<noteq> g" using gn by auto
      then show ?thesis using G1 k Suc unfolding sh by (simp del: mult_Suc_right)
    qed
  qed
  have c4: "\<forall>g'. g' \<notin> set (g # gs) \<longrightarrow> G g' = gens s g'" using G2 by simp
  have c5: "\<forall>i<length (g # gs). P (?f + 3 * i) = \<lparr>pstate = Pending, reactions = []\<rparr> \<and>
                       P (Suc (?f + 3 * i)) = \<lparr>pstate = Pending, reactions = []\<rparr>"
  proof (intro allI impI)
    fix i assume i: "i < length (g # gs)"
    show "P (?f + 3 * i) = \<lparr>pstate = Pending, reactions = []\<rparr> \<and>
          P (Suc (?f + 3 * i)) = \<lparr>pstate = Pending, reactions = []\<rparr>"
    proof (cases i)
      case 0
      then show ?thesis using P2 by simp
    next
      case (Suc k)
      then have k: "k < length gs" using i by simp
      then show ?thesis using P1 Suc unfolding sh by (simp del: mult_Suc_right)
    qed
  qed
  have c6: "\<forall>p. p < ?f \<longrightarrow> P p = proms s p" using P2 by simp
  show ?case using c1 c2 c3 c4 c5 c6 by blast
qed

lemma cmp_setup:
  assumes ip: "inputs_pending gs s" and ne: "gs \<noteq> []"
  shows "fst (intersectByComparison gs comparator s) = fresh s \<and>
    cmp_inv (fresh s) gs comparator n [] (set gs)
      (observe_all (fresh s) n (snd (intersectByComparison gs comparator s))) \<and>
    timers (observe_all (fresh s) n (snd (intersectByComparison gs comparator s))) = timers s \<and>
    log (observe_all (fresh s) n (snd (intersectByComparison gs comparator s))) = log s"
proof -
  let ?f = "fresh s"
  let ?K = "length gs"
  let ?H = "HandleEmitCmp (Suc ?f) comparator ?K ?f"
  let ?R = "CallDoneOf ?f"
  let ?pid = "\<lambda>i. Suc (Suc (?f + 3 * i))"
  let ?pt = "\<lambda>i. Suc (Suc (Suc (?f + 3 * i)))"
  let ?ta = "\<lambda>i. Suc (Suc (Suc (Suc (?f + 3 * i))))"
  let ?s3 = "s\<lparr>fresh := Suc (Suc ?f),
      gens := (gens s)(?f := \<lparr>registeredEmits = [], registeredCatches = [], registeredDones = []\<rparr>),
      dists := (dists s)(Suc ?f := [])\<rparr>"
  note ipd = inputs_pendingD[OF ip]
  from cmp_inputs_eq[OF ipd(2), of ?H ?s3] obtain G P A where
    hs: "fst (cmp_inputs gs ?H ?s3) = map (\<lambda>i. fresh ?s3 + 3 * i) [0..<?K]"
    and e4: "snd (cmp_inputs gs ?H ?s3) =
        ?s3\<lparr>fresh := fresh ?s3 + 3 * ?K, gens := G, proms := P, arrs := A\<rparr>"
    and G1: "\<forall>i<?K. G (gs ! i) = (gens ?s3 (gs ! i))
           \<lparr>registeredEmits := registeredEmits (gens ?s3 (gs ! i)) @
               [?H, ThenPush (Suc (Suc (fresh ?s3 + 3 * i)))],
            registeredDones := registeredDones (gens ?s3 (gs ! i)) @
               [ThenDone (Suc (Suc (fresh ?s3 + 3 * i))) (ResolveOuter (fresh ?s3 + 3 * i))
                  (Suc (fresh ?s3 + 3 * i))]\<rparr>"
    and G2: "\<forall>g. g \<notin> set gs \<longrightarrow> G g = gens ?s3 g"
    and P1: "\<forall>i<?K. P (fresh ?s3 + 3 * i) = \<lparr>pstate = Pending, reactions = []\<rparr> \<and>
                     P (Suc (fresh ?s3 + 3 * i)) = \<lparr>pstate = Pending, reactions = []\<rparr>"
    and P2: "\<forall>p. p < fresh ?s3 \<longrightarrow> P p = proms ?s3 p"
    by blast
  let ?s4 = "s\<lparr>fresh := Suc (Suc (?f + 3 * ?K)), gens := G, proms := P, arrs := A,
      dists := (dists s)(Suc ?f := [])\<rparr>"
  have hs': "fst (cmp_inputs gs ?H ?s3) = map ?pid [0..<?K]" using hs by simp
  have e4': "snd (cmp_inputs gs ?H ?s3) = ?s4" using e4 by (cases s) simp
  have K: "0 < ?K" using ne by simp
  have inj: "\<forall>i<?K. \<forall>j<?K. ?pid i = ?pid j \<longrightarrow> i = j" by simp
  have P1a: "\<forall>i<?K. P (?pid i) = \<lparr>pstate = Pending, reactions = []\<rparr>" using P1 by simp
  have P1b: "\<forall>i<?K. P (?pt i) = \<lparr>pstate = Pending, reactions = []\<rparr>" using P1 by simp
  have pre: "\<forall>i<?K. ?pid i < fresh ?s4 \<and> proms ?s4 (?pid i) = \<lparr>pstate = Pending, reactions = []\<rparr>"
    using P1a by simp
  from promise_all_barrier[OF K ipd(2) inj pre, of ?R] obtain P' r av where
    pa: "fst (promise_all (map ?pid [0..<?K]) ?s4) = fresh ?s4"
    and e6: "snd (then_p (fresh ?s4) ?R (snd (promise_all (map ?pid [0..<?K]) ?s4))) =
         ?s4\<lparr>fresh := Suc (Suc (fresh ?s4 + ?K)), proms := P', remaining := r, allvalues := av\<rparr>"
    and bar: "barrier ?pid (\<lambda>i. Suc (fresh ?s4 + i)) (fresh ?s4) (Suc (fresh ?s4 + ?K)) ?R gs (set gs)
         (?s4\<lparr>fresh := Suc (Suc (fresh ?s4 + ?K)), proms := P', remaining := r, allvalues := av\<rparr>)"
    and fr: "\<forall>q. q < fresh ?s4 \<and> q \<notin> set (map ?pid [0..<?K]) \<longrightarrow> P' q = proms ?s4 q"
    by blast
  let ?s6 = "?s4\<lparr>fresh := Suc (Suc (fresh ?s4 + ?K)), proms := P', remaining := r, allvalues := av\<rparr>"
  have ih: "intersectByComparison gs comparator s =
      (?f, snd (then_p (fst (promise_all (fst (cmp_inputs gs ?H ?s3)) (snd (cmp_inputs gs ?H ?s3))))
              ?R (snd (promise_all (fst (cmp_inputs gs ?H ?s3)) (snd (cmp_inputs gs ?H ?s3))))))"
    by (cases s) (simp add: intersectByComparison_def new_generator_def alloc_def case_prod_beta Let_def)
  have ih': "intersectByComparison gs comparator s = (?f, ?s6)"
    unfolding ih hs' e4' pa e6 ..
  let ?s7 = "observe_all ?f n ?s6"
  have fn: "?f \<notin> set gs" using ipd(4)[of ?f] by blast
  have Gf: "G ?f = \<lparr>registeredEmits = [], registeredCatches = [], registeredDones = []\<rparr>"
    using G2 fn by simp
  have o: "observed ?f n ?s7"
    by (simp add: observed_def observe_all_def emit_g_def done_g_def catch_g_def Gf)
  have gi: "\<forall>i<?K. gens ?s7 (gs ! i) =
        \<lparr>registeredEmits = [?H, ThenPush (?ta i)], registeredCatches = [],
          registeredDones = [ThenDone (?ta i) (ResolveOuter (?pid i)) (?pt i)]\<rparr>"
  proof (intro allI impI)
    fix i assume i: "i < ?K"
    then have m: "gs ! i \<in> set gs" by simp
    then have ne: "gs ! i \<noteq> ?f" using fn by metis
    have "gens s (gs ! i) = \<lparr>registeredEmits = [], registeredCatches = [], registeredDones = []\<rparr>"
      by (rule ipd(5)[OF m])
    then have "G (gs ! i) = \<lparr>registeredEmits = [?H, ThenPush (?ta i)], registeredCatches = [],
          registeredDones = [ThenDone (?ta i) (ResolveOuter (?pid i)) (?pt i)]\<rparr>"
      using G1 i ne by simp
    then show "gens ?s7 (gs ! i) =
        \<lparr>registeredEmits = [?H, ThenPush (?ta i)], registeredCatches = [],
          registeredDones = [ThenDone (?ta i) (ResolveOuter (?pid i)) (?pt i)]\<rparr>"
      using ne by (simp add: observe_all_def emit_g_def done_g_def catch_g_def)
  qed
  have rt: "\<forall>i<?K. reactions (proms ?s7 (?pt i)) = []"
  proof (intro allI impI)
    fix i assume i: "i < ?K"
    have a: "?pt i < fresh ?s4" using i by simp
    have "\<forall>k<?K. ?pt i \<noteq> ?pid k" using cmp_ids(1)[OF i, of _ ?f] by blast
    then have b: "?pt i \<notin> set (map ?pid [0..<?K])" by auto
    have "P' (?pt i) = P (?pt i)" using fr a b by simp
    then show "reactions (proms ?s7 (?pt i)) = []"
      using P1b i by (simp add: observe_all_def emit_g_def done_g_def catch_g_def)
  qed
  have bar7: "barrier ?pid (\<lambda>i. Suc (Suc (Suc (?f + 3 * ?K + i)))) (Suc (Suc (?f + 3 * ?K)))
       (Suc (Suc (Suc (?f + 3 * ?K + ?K)))) ?R gs (set gs) ?s7"
  proof -
    have "barrier ?pid (\<lambda>i. Suc (fresh ?s4 + i)) (fresh ?s4) (Suc (fresh ?s4 + ?K)) ?R gs (set gs) ?s7
        = barrier ?pid (\<lambda>i. Suc (fresh ?s4 + i)) (fresh ?s4) (Suc (fresh ?s4 + ?K)) ?R gs (set gs) ?s6"
      by (rule barrier_cong) (simp_all add: observe_all_def emit_g_def done_g_def catch_g_def)
    then show ?thesis using bar by simp
  qed
  have la: "list_all (\<lambda>g. g < ?f) gs" using ipd(4) by (simp add: list_all_iff)
  have j7: "jobs ?s7 = []" using ipd(1) by (simp add: observe_all_def emit_g_def done_g_def catch_g_def)
  have d7: "dists ?s7 (Suc ?f) = []"
    by (simp add: observe_all_def emit_g_def done_g_def catch_g_def)
  have h: "cmp_inv ?f gs comparator n [] (set gs) ?s7"
    unfolding cmp_inv_def using la j7 o d7 gi rt bar7 by blast
  have t7: "timers ?s7 = timers s" by (simp add: observe_all_def emit_g_def done_g_def catch_g_def)
  have l7: "log ?s7 = log s" by (simp add: observe_all_def emit_g_def done_g_def catch_g_def)
  show ?thesis unfolding ih' using h t7 l7 by simp
qed

lemma cmp_run:
  assumes ip: "inputs_pending gs s" and q: "quiet_after_done (timers s)"
  shows "fst (intersectByComparison gs comparator s) = fresh s \<and>
    (\<exists>s'. run (observe_all (fresh s) n (snd (intersectByComparison gs comparator s))) = Some s' \<and>
       log s' = log s @
         map (SawItem n) (cmp_from (length gs) comparator [] (items_of (timers s))) @
         (if completes gs (timers s) then [SawDone n] else []))"
proof (cases "gs = []")
  case True
  let ?f = "fresh s"
  note ipd = inputs_pendingD[OF ip]
  have ts: "timers s = []" using ipd(3) True by (simp add: inputs_only_Nil)
  let ?s7 = "observe_all ?f n (snd (intersectByComparison [] comparator s))"
  let ?j = "Fulfil (CallDoneOf ?f) (Suc (Suc (Suc ?f))) (Arr [])"
  have f: "fst (intersectByComparison [] comparator s) = ?f"
    by (simp add: intersectByComparison_def new_generator_def alloc_def promise_all_def
        new_promise_def then_p_def resolve_p_def Let_def)
  have j7: "jobs ?s7 = [?j]" using ipd(1)
    by (simp add: intersectByComparison_def new_generator_def alloc_def promise_all_def
        new_promise_def then_p_def resolve_p_def Let_def observe_all_def emit_g_def done_g_def
        catch_g_def)
  let ?s8 = "run_job ?j (?s7\<lparr>jobs := []\<rparr>)"
  have r: "run ?s7 = run ?s8" by (rule run_job_step[OF j7])
  have o: "observed ?f n ?s8"
    by (simp add: intersectByComparison_def new_generator_def alloc_def promise_all_def
        new_promise_def then_p_def resolve_p_def Let_def observe_all_def emit_g_def done_g_def
        catch_g_def observed_def done_h_def)
  have j8: "jobs ?s8 = []"
    by (simp add: intersectByComparison_def new_generator_def alloc_def promise_all_def
        new_promise_def then_p_def resolve_p_def Let_def observe_all_def emit_g_def done_g_def
        catch_g_def done_h_def)
  have t8: "timers ?s8 = [DispatchDone ?f]" using ts
    by (simp add: intersectByComparison_def new_generator_def alloc_def promise_all_def
        new_promise_def then_p_def resolve_p_def Let_def observe_all_def emit_g_def done_g_def
        catch_g_def done_h_def)
  have l8: "log ?s8 = log s"
    by (simp add: intersectByComparison_def new_generator_def alloc_def promise_all_def
        new_promise_def then_p_def resolve_p_def Let_def observe_all_def emit_g_def done_g_def
        catch_g_def done_h_def)
  have a: "list_all (task_on ?f) (timers ?s8)" unfolding t8 by simp
  have c: "concat (map (task_obs n) (timers ?s8)) = [SawDone n]" unfolding t8 by simp
  from observed_result[OF o j8 a l8 c] obtain s' where
    "run ?s8 = Some s'" "log s' = log s @ [SawDone n]" by blast
  then show ?thesis using f r True ts
    by (simp add: completes_def)
next
  case False
  let ?f = "fresh s"
  let ?K = "length gs"
  let ?s7 = "observe_all ?f n (snd (intersectByComparison gs comparator s))"
  let ?E = "\<lambda>x. DispatchEmit ?f x NoHook"
  let ?out = "cmp_from ?K comparator [] (items_of (timers s))"
  note ipd = inputs_pendingD[OF ip]
  from cmp_setup[OF ip False, of comparator n]
  have f: "fst (intersectByComparison gs comparator s) = ?f"
    and h: "cmp_inv ?f gs comparator n [] (set gs) ?s7"
    and t7: "timers ?s7 = timers s" and l7: "log ?s7 = log s" by blast+
  have t7': "timers ?s7 = timers s @ []" using t7 by simp
  from cmp_phase1[OF h t7' ipd(3)] obtain s1 where
    r: "run ?s7 = run s1" and o: "observed ?f n s1" and j1: "jobs s1 = []"
    and l1: "log s1 = log ?s7"
    and t1: "timers s1 = [] @ cmp_out ?f ?K comparator [] (set gs) (timers s)" by blast
  have ne: "set gs \<noteq> {}" using False by simp
  have sp: "cmp_out ?f ?K comparator [] (set gs) (timers s) =
     map ?E ?out @ (if completes gs (timers s) then [DispatchDone ?f] else [])"
    using cmp_out_spec[OF ipd(3) q, of "set gs" ?f ?K comparator "[]"] ne
    by (simp add: completes_iff)
  have t1': "timers s1 = map ?E ?out @
     (if completes gs (timers s) then [DispatchDone ?f] else [])"
    using t1 sp by simp
  have a: "list_all (task_on ?f) (timers s1)" unfolding t1' emit_tasks_on by simp
  have c: "concat (map (task_obs n) (timers s1)) =
      map (SawItem n) ?out @ (if completes gs (timers s) then [SawDone n] else [])"
    unfolding t1' emit_tasks_obs by simp
  have l1': "log s1 = log s" using l1 l7 by simp
  from observed_result[OF o j1 a l1' c] obtain s' where
    "run s1 = Some s'" "log s' = log s @
      map (SawItem n) ?out @ (if completes gs (timers s) then [SawDone n] else [])" by blast
  then show ?thesis using f r by simp
qed

lemma scan_distinct_none:
  "\<forall>d\<in>set ds. \<not> comparator (item d) x \<Longrightarrow> scan_distinct comparator K x ds = None"
  by (induction ds) simp_all

lemma scan_distinct_some:
  assumes "\<forall>e\<in>set pre. \<not> comparator (item e) x" "comparator (item d) x"
  shows "scan_distinct comparator K x (pre @ d # post) =
     (if \<not> emitted d \<and> Suc (count d) = K
      then Some (pre @ d\<lparr>count := Suc (count d), emitted := True\<rparr> # post, Some (item d))
      else Some (pre @ d\<lparr>count := Suc (count d)\<rparr> # post, None))"
  using assms by (induction pre) (simp_all add: Let_def)

lemma occurrences_snoc:
  "occurrences hasher (seen @ [x]) y =
     (if hasher x = hasher y then Suc (occurrences hasher seen y) else occurrences hasher seen y)"
  by (simp add: occurrences_def)

lemma occurrences_key:
  "hasher x = hasher y \<Longrightarrow> occurrences hasher seen x = occurrences hasher seen y"
  by (simp add: occurrences_def)

lemma record_item_agree:
  assumes eq: "\<forall>x y. comparator x y \<longleftrightarrow> hasher x = hasher y"
    and ra: "records_agree K hasher ds seen"
  shows "records_agree K hasher (fst (record_item K comparator x ds)) (seen @ [x]) \<and>
     (case snd (record_item K comparator x ds) of
        Some y \<Rightarrow> Suc (occurrences hasher seen x) = K \<and> comparator y x
      | None \<Rightarrow> Suc (occurrences hasher seen x) \<noteq> K)"
proof (cases "\<exists>d\<in>set ds. hasher (item d) = hasher x")
  case False
  then have no: "\<forall>d\<in>set ds. hasher (item d) \<noteq> hasher x" by blast
  then have "\<forall>d\<in>set ds. \<not> comparator (item d) x" using eq by simp
  then have sc: "scan_distinct comparator K x ds = None" by (rule scan_distinct_none)
  have cov: "\<forall>y\<in>set seen. \<exists>d\<in>set ds. hasher (item d) = hasher y"
    using ra unfolding records_agree_def by blast
  have "\<forall>y\<in>set seen. hasher y \<noteq> hasher x"
  proof
    fix y assume "y \<in> set seen"
    then obtain d where "d \<in> set ds" "hasher (item d) = hasher y" using cov by blast
    then show "hasher y \<noteq> hasher x" using no by metis
  qed
  then have "filter (\<lambda>y. hasher y = hasher x) seen = []" by (simp add: filter_empty_conv)
  then have oc: "occurrences hasher seen x = 0" by (simp add: occurrences_def)
  let ?new = "\<lparr>item = x, count = 1, emitted = (1 = K)\<rparr>"
  have r: "record_item K comparator x ds = (ds @ [?new], if 1 = K then Some x else None)"
    by (simp add: record_item_def sc)
  have d1: "distinct (map (\<lambda>d. hasher (item d)) (ds @ [?new]))"
    using ra no unfolding records_agree_def by auto
  have d2: "\<forall>d\<in>set (ds @ [?new]). count d = occurrences hasher (seen @ [x]) (item d) \<and>
                  (emitted d \<longleftrightarrow> 0 < K \<and> K \<le> count d)"
  proof
    fix d assume "d \<in> set (ds @ [?new])"
    then consider "d \<in> set ds" | "d = ?new" by auto
    then show "count d = occurrences hasher (seen @ [x]) (item d) \<and>
                  (emitted d \<longleftrightarrow> 0 < K \<and> K \<le> count d)"
    proof cases
      case 1
      then have "hasher x \<noteq> hasher (item d)" using no by metis
      then have "occurrences hasher (seen @ [x]) (item d) = occurrences hasher seen (item d)"
        by (simp add: occurrences_snoc)
      then show ?thesis using ra 1 unfolding records_agree_def by simp
    next
      case 2
      then show ?thesis using oc by (auto simp: occurrences_snoc)
    qed
  qed
  have d3: "\<forall>y\<in>set (seen @ [x]). \<exists>d\<in>set (ds @ [?new]). hasher (item d) = hasher y"
    using cov by auto
  have "records_agree K hasher (ds @ [?new]) (seen @ [x])"
    unfolding records_agree_def using d1 d2 d3 by blast
  moreover have "comparator x x" using eq by simp
  ultimately show ?thesis unfolding r using oc by auto
next
  case True
  then obtain d where d: "d \<in> set ds" "hasher (item d) = hasher x" by blast
  then obtain pre post where sp: "ds = pre @ d # post" by (auto simp: in_set_conv_decomp)
  have dist: "distinct (map (\<lambda>d. hasher (item d)) ds)"
    and cnt: "\<forall>e\<in>set ds. count e = occurrences hasher seen (item e) \<and>
                  (emitted e \<longleftrightarrow> 0 < K \<and> K \<le> count e)"
    and cov: "\<forall>y\<in>set seen. \<exists>e\<in>set ds. hasher (item e) = hasher y"
    using ra unfolding records_agree_def by blast+
  have "hasher (item d) \<notin> (\<lambda>d. hasher (item d)) ` (set pre \<union> set post)"
    using dist unfolding sp by auto
  then have oth: "\<forall>e\<in>set pre \<union> set post. hasher (item e) \<noteq> hasher x"
    unfolding d(2) by (metis imageI)
  then have np: "\<forall>e\<in>set pre. \<not> comparator (item e) x" using eq by simp
  have cd: "comparator (item d) x" using eq d(2) by simp
  have c0: "count d = occurrences hasher seen x"
    using cnt d(1) occurrences_key[OF d(2), of seen] by simp
  have em: "emitted d \<longleftrightarrow> 0 < K \<and> K \<le> count d" using cnt d(1) by blast
  note sc = scan_distinct_some[where comparator = comparator and pre = pre and x = x and d = d
      and K = K and post = post, OF np cd]
  show ?thesis
  proof (cases "Suc (count d) = K")
    case K: True
    then have ne: "\<not> emitted d" using em by auto
    let ?d = "d\<lparr>count := Suc (count d), emitted := True\<rparr>"
    have r: "record_item K comparator x ds = (pre @ ?d # post, Some (item d))"
      using sc K ne by (simp add: record_item_def sp)
    have d1: "distinct (map (\<lambda>d. hasher (item d)) (pre @ ?d # post))"
      using dist unfolding sp by simp
    have d2: "\<forall>e\<in>set (pre @ ?d # post). count e = occurrences hasher (seen @ [x]) (item e) \<and>
                  (emitted e \<longleftrightarrow> 0 < K \<and> K \<le> count e)"
    proof
      fix e assume "e \<in> set (pre @ ?d # post)"
      then consider "e \<in> set pre \<union> set post" | "e = ?d" by auto
      then show "count e = occurrences hasher (seen @ [x]) (item e) \<and>
                  (emitted e \<longleftrightarrow> 0 < K \<and> K \<le> count e)"
      proof cases
        case 1
        then have "hasher x \<noteq> hasher (item e)" using oth by metis
        then have "occurrences hasher (seen @ [x]) (item e) = occurrences hasher seen (item e)"
          by (simp add: occurrences_snoc)
        moreover have "e \<in> set ds" using 1 unfolding sp by auto
        ultimately show ?thesis using cnt by simp
      next
        case 2
        have "occurrences hasher (seen @ [x]) (item d) = Suc (occurrences hasher seen x)"
          using d(2) occurrences_key[OF d(2), of seen] by (simp add: occurrences_snoc)
        then show ?thesis using 2 c0 K by auto
      qed
    qed
    have d3: "\<forall>y\<in>set (seen @ [x]). \<exists>e\<in>set (pre @ ?d # post). hasher (item e) = hasher y"
    proof
      fix y assume "y \<in> set (seen @ [x])"
      then consider "y \<in> set seen" | "y = x" by auto
      then show "\<exists>e\<in>set (pre @ ?d # post). hasher (item e) = hasher y"
      proof cases
        case 1
        then obtain e where e: "e \<in> set ds" "hasher (item e) = hasher y" using cov by blast
        then consider "e \<in> set pre \<union> set post" | "e = d" unfolding sp by auto
        then show ?thesis
        proof cases
          case 1
          then show ?thesis using e(2) by auto
        next
          case 2
          then have "hasher (item ?d) = hasher y" using e(2) by simp
          then show ?thesis by auto
        qed
      next
        case 2
        then have "hasher (item ?d) = hasher y" using d(2) by simp
        then show ?thesis by auto
      qed
    qed
    have "records_agree K hasher (pre @ ?d # post) (seen @ [x])"
      unfolding records_agree_def using d1 d2 d3 by blast
    then show ?thesis unfolding r using c0 K cd by simp
  next
    case K: False
    let ?d = "d\<lparr>count := Suc (count d)\<rparr>"
    have r: "record_item K comparator x ds = (pre @ ?d # post, None)"
      using sc K by (simp add: record_item_def sp)
    have d1: "distinct (map (\<lambda>d. hasher (item d)) (pre @ ?d # post))"
      using dist unfolding sp by simp
    have d2: "\<forall>e\<in>set (pre @ ?d # post). count e = occurrences hasher (seen @ [x]) (item e) \<and>
                  (emitted e \<longleftrightarrow> 0 < K \<and> K \<le> count e)"
    proof
      fix e assume "e \<in> set (pre @ ?d # post)"
      then consider "e \<in> set pre \<union> set post" | "e = ?d" by auto
      then show "count e = occurrences hasher (seen @ [x]) (item e) \<and>
                  (emitted e \<longleftrightarrow> 0 < K \<and> K \<le> count e)"
      proof cases
        case 1
        then have "hasher x \<noteq> hasher (item e)" using oth by metis
        then have "occurrences hasher (seen @ [x]) (item e) = occurrences hasher seen (item e)"
          by (simp add: occurrences_snoc)
        moreover have "e \<in> set ds" using 1 unfolding sp by auto
        ultimately show ?thesis using cnt by simp
      next
        case 2
        have "occurrences hasher (seen @ [x]) (item d) = Suc (occurrences hasher seen x)"
          using d(2) occurrences_key[OF d(2), of seen] by (simp add: occurrences_snoc)
        then show ?thesis using 2 c0 K em by auto
      qed
    qed
    have d3: "\<forall>y\<in>set (seen @ [x]). \<exists>e\<in>set (pre @ ?d # post). hasher (item e) = hasher y"
    proof
      fix y assume "y \<in> set (seen @ [x])"
      then consider "y \<in> set seen" | "y = x" by auto
      then show "\<exists>e\<in>set (pre @ ?d # post). hasher (item e) = hasher y"
      proof cases
        case 1
        then obtain e where e: "e \<in> set ds" "hasher (item e) = hasher y" using cov by blast
        then consider "e \<in> set pre \<union> set post" | "e = d" unfolding sp by auto
        then show ?thesis
        proof cases
          case 1
          then show ?thesis using e(2) by auto
        next
          case 2
          then have "hasher (item ?d) = hasher y" using e(2) by simp
          then show ?thesis by auto
        qed
      next
        case 2
        then have "hasher (item ?d) = hasher y" using d(2) by simp
        then show ?thesis by auto
      qed
    qed
    have "records_agree K hasher (pre @ ?d # post) (seen @ [x])"
      unfolding records_agree_def using d1 d2 d3 by blast
    then show ?thesis unfolding r using c0 K by simp
  qed
qed

lemma cmp_from_agree:
  assumes eq: "\<forall>x y. comparator x y \<longleftrightarrow> hasher x = hasher y"
  shows "records_agree K hasher ds seen \<Longrightarrow>
     list_all2 comparator (cmp_from K comparator ds xs) (kth_from K hasher seen xs)"
proof (induction xs arbitrary: ds seen)
  case Nil
  show ?case by simp
next
  case (Cons x xs)
  from record_item_agree[OF eq Cons.prems, of x]
  have ra: "records_agree K hasher (fst (record_item K comparator x ds)) (seen @ [x])"
    and e: "case snd (record_item K comparator x ds) of
        Some y \<Rightarrow> Suc (occurrences hasher seen x) = K \<and> comparator y x
      | None \<Rightarrow> Suc (occurrences hasher seen x) \<noteq> K" by blast+
  note IH = Cons.IH[OF ra]
  show ?case
  proof (cases "snd (record_item K comparator x ds)")
    case None
    then show ?thesis using e IH by simp
  next
    case (Some y)
    then show ?thesis using e IH by simp
  qed
qed

lemma records_agree_Nil: "records_agree K hasher [] []"
  by (simp add: records_agree_def)

lemma list_all2_keys:
  assumes "\<forall>x y. comparator x y \<longleftrightarrow> hasher x = hasher y" "list_all2 comparator cs hs"
  shows "map hasher cs = map hasher hs"
  using assms(2,1) by (induction rule: list_all2_induct) simp_all

lemma kth_from_subset: "set (kth_from K hasher seen xs) \<subseteq> set xs"
  by (induction xs arbitrary: seen) auto

lemma hash_emitted_own:
  assumes "\<forall>x\<in>set xs. \<not> inh (hasher x)"
  shows "hash_emitted inh K hasher xs = kth_occurrences K hasher xs"
proof -
  have "\<forall>x\<in>set (kth_from K hasher [] xs). \<not> inh (hasher x)"
    using assms kth_from_subset[of K hasher "[]" xs] by blast
  then show ?thesis by (simp add: hash_emitted_def kth_occurrences_def)
qed

section \<open>Intersection by comparison\<close>

text \<open>
  Let the comparator hold of two items exactly when the hasher gives them the same key.
  On the same input streams, when no arriving key names a member of \<open>Object.prototype\<close>,
  \<open>intersectByComparison\<close> and \<open>intersectByHash\<close> emit at the same arrivals, one item for
  one item, and corresponding items are equal for the comparator: the comparison variant
  emits the first arrival with the key, the hash variant the \<open>K\<close>-th. Both complete if
  and only if every input completes.
\<close>

lemma intersections_agree_on_own_keys:
  assumes "inputs_pending gs s" "quiet_after_done (timers s)"
    and "\<forall>x y. comparator x y \<longleftrightarrow> hasher x = hasher y"
    and "\<forall>x\<in>set (items_of (timers s)). \<not> proto_members s (hasher x)"
  shows "\<exists>sc sh.
       run (observe_all (fresh s) n (snd (intersectByComparison gs comparator s))) = Some sc \<and>
       run (observe_all (fresh s) n (snd (intersectByHash gs hasher s))) = Some sh \<and>
       log sc = log s @
         map (SawItem n) (cmp_from (length gs) comparator [] (items_of (timers s))) @
         (if completes gs (timers s) then [SawDone n] else []) \<and>
       log sh = log s @
         map (SawItem n) (kth_occurrences (length gs) hasher (items_of (timers s))) @
         (if completes gs (timers s) then [SawDone n] else []) \<and>
       list_all2 comparator (cmp_from (length gs) comparator [] (items_of (timers s)))
         (kth_occurrences (length gs) hasher (items_of (timers s))) \<and>
       distinct (map hasher (kth_occurrences (length gs) hasher (items_of (timers s))))"
proof -
  let ?cs = "cmp_from (length gs) comparator [] (items_of (timers s))"
  let ?hs = "kth_occurrences (length gs) hasher (items_of (timers s))"
  from cmp_run[OF assms(1,2), of comparator n] obtain sc where
    c: "run (observe_all (fresh s) n (snd (intersectByComparison gs comparator s))) = Some sc"
      "log sc = log s @ map (SawItem n) ?cs @
         (if completes gs (timers s) then [SawDone n] else [])" by blast
  from hash_run[OF assms(1,2), of hasher n] obtain sh where
    h: "run (observe_all (fresh s) n (snd (intersectByHash gs hasher s))) = Some sh"
      "log sh = log s @
         map (SawItem n) (hash_emitted (proto_members s) (length gs) hasher (items_of (timers s))) @
         (if completes gs (timers s) then [SawDone n] else [])" by blast
  have h2: "log sh = log s @ map (SawItem n) ?hs @
         (if completes gs (timers s) then [SawDone n] else [])"
    using h(2)
    unfolding hash_emitted_own[where inh = "proto_members s" and hasher = hasher
        and xs = "items_of (timers s)", OF assms(4)] .
  have a: "list_all2 comparator ?cs ?hs"
    unfolding kth_occurrences_def by (rule cmp_from_agree[OF assms(3) records_agree_Nil])
  have dh: "distinct (map hasher ?hs)" unfolding kth_occurrences_def by (rule kth_from_distinct)
  show ?thesis using c h(1) h2 a dh by (intro exI[of _ sc] exI[of _ sh]) simp
qed

text \<open>
  Claim C8 fails on the code for a key that names a member of \<open>Object.prototype\<close>. On the
  streams \<open>[{id: 'a'}, {id: 'constructor'}]\<close> and \<open>[{id: 'constructor'}, {id: 'a'}]\<close>,
  with the hasher \<open>x.id\<close> and the comparator that compares \<open>x.id\<close>,
  \<open>intersectByComparison\<close> emits an item for each of the two keys and \<open>intersectByHash\<close>
  only the item for \<open>a\<close>.
\<close>

theorem intersectByComparison_emits_what_intersectByHash_drops:
  "map_option log
     (run (observe_all 4 7 (snd (intersectByComparison [0, 2] (\<lambda>x y. key_of x = key_of y)
        (two_arrays_in object_prototype
           [Prim (0, ''a''), Prim (0, ''constructor'')]
           [Prim (1, ''constructor''), Prim (1, ''a'')]))))) =
   Some [SawItem 7 (Prim (0, ''constructor'')), SawItem 7 (Prim (0, ''a'')), SawDone 7] \<and>
   map_option log
     (run (observe_all 4 7 (snd (intersectByHash [0, 2] key_of
        (two_arrays_in object_prototype
           [Prim (0, ''a''), Prim (0, ''constructor'')]
           [Prim (1, ''constructor''), Prim (1, ''a'')]))))) =
   Some [SawItem 7 (Prim (1, ''a'')), SawDone 7]"
  using cmp_run[OF
      two_arrays_in_pending[of object_prototype
        "[Prim (0, ''a''), Prim (0, ''constructor'')]" "[Prim (1, ''constructor''), Prim (1, ''a'')]"]
      two_arrays_in_items(2)[of object_prototype
        "[Prim (0, ''a''), Prim (0, ''constructor'')]" "[Prim (1, ''constructor''), Prim (1, ''a'')]"],
      of "\<lambda>x y. key_of x = key_of y" 7]
    hash_run[OF
      two_arrays_in_pending[of object_prototype
        "[Prim (0, ''a''), Prim (0, ''constructor'')]" "[Prim (1, ''constructor''), Prim (1, ''a'')]"]
      two_arrays_in_items(2)[of object_prototype
        "[Prim (0, ''a''), Prim (0, ''constructor'')]" "[Prim (1, ''constructor''), Prim (1, ''a'')]"],
      of key_of 7]
  by (auto simp: two_arrays_in_items hash_emitted_def kth_occurrences_def occurrences_def
      object_prototype_def record_item_def Let_def)

end
